theory Spec2Isabelle
  imports Main
begin

section \<open>Strings\<close>

text \<open>JavaScript strings are modelled as \<open>string\<close>; the helpers below are the string
  methods that \<open>content.js\<close> calls.\<close>

definition startsWith :: "string \<Rightarrow> string \<Rightarrow> bool" where
  "startsWith s p = (take (length p) s = p)"

fun str_includes :: "string \<Rightarrow> string \<Rightarrow> bool" where
  "str_includes [] p = (p = [])"
| "str_includes (c # s) p = (startsWith (c # s) p \<or> str_includes s p)"

text \<open>\<open>s.substring(0, s.lastIndexOf(c) + 1)\<close>: the prefix of \<open>s\<close> through its last
  \<open>c\<close>, and the empty string when \<open>c\<close> does not occur (\<open>lastIndexOf\<close> is \<open>-1\<close>).\<close>

definition throughLast :: "char \<Rightarrow> string \<Rightarrow> string" where
  "throughLast c s = rev (dropWhile (\<lambda>x. x \<noteq> c) (rev s))"

definition toLowerCase :: "string \<Rightarrow> string" where
  "toLowerCase s = map (\<lambda>c. case map_of (zip ''ABCDEFGHIJKLMNOPQRSTUVWXYZ''
      ''abcdefghijklmnopqrstuvwxyz'') c of Some l \<Rightarrow> l | None \<Rightarrow> c) s"

definition toUpperCase :: "string \<Rightarrow> string" where
  "toUpperCase s = map (\<lambda>c. case map_of (zip ''abcdefghijklmnopqrstuvwxyz''
      ''ABCDEFGHIJKLMNOPQRSTUVWXYZ'') c of Some u \<Rightarrow> u | None \<Rightarrow> c) s"

text \<open>Decimal rendering of a number inside a template literal.\<close>

fun showNat :: "nat \<Rightarrow> string" where
  "showNat n = (if n < 10 then [''0123456789'' ! n]
                else showNat (n div 10) @ [''0123456789'' ! (n mod 10)])"

declare showNat.simps [simp del]

section \<open>Regular expressions\<close>

text \<open>The two patterns of \<open>processESIComment\<close> use literals, one-character classes,
  greedy repetitions of a negated class and one capture group. \<open>rxMatchHere\<close> is a
  backtracking matcher for exactly these atoms: a repetition tries its longest run first.
  The result is the text of the capture group.\<close>

datatype atom =
    Lit string
  | OneOf string
  | PlusNot string
  | StarNot string
  | CapPlusNot string

definition firstSome :: "'a option list \<Rightarrow> 'a option" where
  "firstSome rs = (case filter (\<lambda>r. r \<noteq> None) rs of [] \<Rightarrow> None | r # _ \<Rightarrow> r)"

fun rxMatchHere :: "atom list \<Rightarrow> string \<Rightarrow> string \<Rightarrow> string option" where
  "rxMatchHere [] s cap = Some cap"
| "rxMatchHere (Lit l # r) s cap =
     (if startsWith s l then rxMatchHere r (drop (length l) s) cap else None)"
| "rxMatchHere (OneOf cs # r) s cap =
     (case s of [] \<Rightarrow> None
      | c # t \<Rightarrow> if c \<in> set cs then rxMatchHere r t cap else None)"
| "rxMatchHere (PlusNot cs # r) s cap =
     firstSome (map (\<lambda>k. rxMatchHere r (drop k s) cap)
       (rev [1 ..< Suc (length (takeWhile (\<lambda>c. c \<notin> set cs) s))]))"
| "rxMatchHere (StarNot cs # r) s cap =
     firstSome (map (\<lambda>k. rxMatchHere r (drop k s) cap)
       (rev [0 ..< Suc (length (takeWhile (\<lambda>c. c \<notin> set cs) s))]))"
| "rxMatchHere (CapPlusNot cs # r) s cap =
     firstSome (map (\<lambda>k. rxMatchHere r (drop k s) (take k s))
       (rev [1 ..< Suc (length (takeWhile (\<lambda>c. c \<notin> set cs) s))]))"

text \<open>\<open>str.match(re)\<close> without the \<open>g\<close> flag: the leftmost match.\<close>

fun rxSearch :: "atom list \<Rightarrow> string \<Rightarrow> string option" where
  "rxSearch r [] = rxMatchHere r [] []"
| "rxSearch r (c # s) =
     (case rxMatchHere r (c # s) [] of Some cap \<Rightarrow> Some cap | None \<Rightarrow> rxSearch r s)"

text \<open>\<open>/<esi:include[^>]+src=["']([^"']+)["'][^>]*>/\<close>\<close>

definition tryIncludeRx :: "atom list" where
  "tryIncludeRx = [Lit ''<esi:include'', PlusNot ''>'', Lit ''src='',
     OneOf [CHR 0x22, CHR 0x27], CapPlusNot [CHR 0x22, CHR 0x27],
     OneOf [CHR 0x22, CHR 0x27], StarNot ''>'', Lit ''>'']"

text \<open>\<open>/src=["']([^"']+)["']/\<close>\<close>

definition srcRx :: "atom list" where
  "srcRx = [Lit ''src='', OneOf [CHR 0x22, CHR 0x27], CapPlusNot [CHR 0x22, CHR 0x27],
     OneOf [CHR 0x22, CHR 0x27]]"

section \<open>The document tree\<close>

text \<open>A DOM node carries an identity (the object reference of the JavaScript, here a
  number), so that the sets and snapshot lists of the processor can hold nodes. Element
  names are stored as the HTML parser gives them; style, class and id are attributes.\<close>

datatype node =
    Element nat string "(string \<times> string) list" "node list"
  | Comment nat string
  | Text nat string

fun nodeId :: "node \<Rightarrow> nat" where
  "nodeId (Element i n a cs) = i"
| "nodeId (Comment i t) = i"
| "nodeId (Text i t) = i"

fun childNodes :: "node \<Rightarrow> node list" where
  "childNodes (Element i n a cs) = cs"
| "childNodes (Comment i t) = []"
| "childNodes (Text i t) = []"

fun isElement :: "node \<Rightarrow> bool" where
  "isElement (Element i n a cs) = True"
| "isElement (Comment i t) = False"
| "isElement (Text i t) = False"

fun isComment :: "node \<Rightarrow> bool" where
  "isComment (Comment i t) = True"
| "isComment (Element i n a cs) = False"
| "isComment (Text i t) = False"

fun localName :: "node \<Rightarrow> string" where
  "localName (Element i n a cs) = n"
| "localName (Comment i t) = []"
| "localName (Text i t) = []"

text \<open>\<open>tagName\<close> of an HTML element is its name in upper case.\<close>

definition tagName :: "node \<Rightarrow> string" where
  "tagName n = toUpperCase (localName n)"

fun nodeValue :: "node \<Rightarrow> string" where
  "nodeValue (Comment i t) = t"
| "nodeValue (Text i t) = t"
| "nodeValue (Element i n a cs) = []"

fun getAttribute :: "node \<Rightarrow> string \<Rightarrow> string option" where
  "getAttribute (Element i n a cs) k = map_of a k"
| "getAttribute (Comment i t) k = None"
| "getAttribute (Text i t) k = None"

text \<open>The nodes of a subtree in tree order (the node itself first).\<close>

fun subtree :: "node \<Rightarrow> node list" where
  "subtree (Element i n a cs) = Element i n a cs # concat (map subtree cs)"
| "subtree (Comment i t) = [Comment i t]"
| "subtree (Text i t) = [Text i t]"

definition descendants :: "node \<Rightarrow> node list" where
  "descendants n = concat (map subtree (childNodes n))"

definition ids :: "node \<Rightarrow> nat list" where
  "ids n = map nodeId (subtree n)"

text \<open>The page: the tree under the \<open>Document\<close> node, the trees that were taken out of
  it and are still referenced by the script, and the next unused node identity.
  The \<open>Document\<close> node is the root \<open>Element\<close> of \<open>document\<close>; its name is
  \<open>#document\<close>.\<close>

record dom =
  document :: node
  detached :: "node list"
  nextId :: nat

definition allNodes :: "dom \<Rightarrow> node list" where
  "allNodes d = subtree (document d) @ concat (map subtree (detached d))"

definition findNode :: "dom \<Rightarrow> nat \<Rightarrow> node option" where
  "findNode d i = List.find (\<lambda>n. nodeId n = i) (allNodes d)"

definition documentElement :: "dom \<Rightarrow> node option" where
  "documentElement d = List.find isElement (childNodes (document d))"

text \<open>\<open>node.parentNode\<close>: the node that has this one among its children, \<open>null\<close>
  (\<open>None\<close>) for the root of a tree that was taken out of the document.\<close>

definition parentNode :: "dom \<Rightarrow> nat \<Rightarrow> nat option" where
  "parentNode d i =
     map_option nodeId (List.find (\<lambda>p. i \<in> set (map nodeId (childNodes p))) (allNodes d))"

text \<open>The ancestors that \<open>parentElement\<close> reaches: every element with this node below
  it, the \<open>Document\<close> node excluded.\<close>

definition ancestorElements :: "dom \<Rightarrow> nat \<Rightarrow> node list" where
  "ancestorElements d i =
     filter (\<lambda>p. nodeId p \<noteq> nodeId (document d) \<and> i \<in> set (map nodeId (descendants p)))
       (allNodes d)"

text \<open>Type selectors in an HTML document compare names without regard to ASCII case.
  \<open>querySelectorAll\<close> takes the alternatives of a selector list and yields each matching
  element once, in tree order.\<close>

definition matchesSelector :: "string list \<Rightarrow> node \<Rightarrow> bool" where
  "matchesSelector sels n =
     (isElement n \<and> toLowerCase (localName n) \<in> set (map toLowerCase sels))"

definition querySelectorAll :: "dom \<Rightarrow> string list \<Rightarrow> nat list" where
  "querySelectorAll d sels =
     map nodeId (filter (matchesSelector sels) (descendants (document d)))"

text \<open>\<open>element.querySelector\<close>: the first matching descendant of the element.\<close>

definition querySelector :: "dom \<Rightarrow> nat \<Rightarrow> string list \<Rightarrow> node option" where
  "querySelector d i sels =
     (case findNode d i of None \<Rightarrow> None
      | Some n \<Rightarrow> List.find (matchesSelector sels) (descendants n))"

text \<open>\<open>parent.replaceChild(new, old)\<close>, for a new node that is in no tree yet: the child
  is replaced in place and its subtree stays behind as a tree of its own.\<close>

fun replaceIn :: "nat \<Rightarrow> node \<Rightarrow> node \<Rightarrow> node" where
  "replaceIn old new (Element i n a cs) =
     Element i n a (map (\<lambda>c. if nodeId c = old then new else replaceIn old new c) cs)"
| "replaceIn old new (Comment i t) = Comment i t"
| "replaceIn old new (Text i t) = Text i t"

definition replaceChild :: "dom \<Rightarrow> node \<Rightarrow> nat \<Rightarrow> dom" where
  "replaceChild d new old =
     (case findNode d old of None \<Rightarrow> d
      | Some gone \<Rightarrow> d\<lparr>document := replaceIn old new (document d),
                    detached := map (replaceIn old new) (detached d) @ [gone]\<rparr>)"

text \<open>\<open>parent.appendChild(new)\<close> for a new node.\<close>

fun appendIn :: "nat \<Rightarrow> node \<Rightarrow> node \<Rightarrow> node" where
  "appendIn p new (Element i n a cs) =
     (if i = p then Element i n a (cs @ [new])
      else Element i n a (map (appendIn p new) cs))"
| "appendIn p new (Comment i t) = Comment i t"
| "appendIn p new (Text i t) = Text i t"

definition appendChild :: "dom \<Rightarrow> nat \<Rightarrow> node \<Rightarrow> dom" where
  "appendChild d p new =
     d\<lparr>document := appendIn p new (document d),
       detached := map (appendIn p new) (detached d)\<rparr>"

text \<open>A node that another task removes from its parent (\<open>node.remove()\<close>) while the
  processor waits: its subtree becomes a tree of its own.\<close>

fun removeIn :: "nat \<Rightarrow> node \<Rightarrow> node" where
  "removeIn old (Element i n a cs) =
     Element i n a (map (removeIn old) (filter (\<lambda>c. nodeId c \<noteq> old) cs))"
| "removeIn old (Comment i t) = Comment i t"
| "removeIn old (Text i t) = Text i t"

definition removeNode :: "nat \<Rightarrow> dom \<Rightarrow> dom" where
  "removeNode old d =
     (if parentNode d old = None then d
      else case findNode d old of None \<Rightarrow> d
        | Some gone \<Rightarrow> d\<lparr>document := removeIn old (document d),
                      detached := map (removeIn old) (detached d) @ [gone]\<rparr>)"

text \<open>Markup as a parser returns it, before its nodes exist; \<open>instantiate\<close> creates the
  nodes, numbering them from the next unused identity.\<close>

datatype markup =
    MElement string "(string \<times> string) list" "markup list"
  | MComment string
  | MText string

fun instantiate :: "nat \<Rightarrow> markup \<Rightarrow> node \<times> nat"
  and instantiateAll :: "nat \<Rightarrow> markup list \<Rightarrow> node list \<times> nat" where
  "instantiate k (MElement n a ms) =
     (case instantiateAll (Suc k) ms of (cs, k') \<Rightarrow> (Element k n a cs, k'))"
| "instantiate k (MComment t) = (Comment k t, Suc k)"
| "instantiate k (MText t) = (Text k t, Suc k)"
| "instantiateAll k [] = ([], k)"
| "instantiateAll k (m # ms) =
     (case instantiate k m of (n, k1) \<Rightarrow>
        (case instantiateAll k1 ms of (ns, k2) \<Rightarrow> (n # ns, k2)))"

section \<open>Comment walker and range replacement\<close>

text \<open>\<open>TreeWalker.nextNode()\<close> from \<open>currentNode = start\<close>, with the walker rooted at
  \<open>document.documentElement\<close>: the nodes after \<open>start\<close> in tree order, up to the end of
  the root's subtree when \<open>start\<close> lies in it, and up to the end of the tree that holds
  \<open>start\<close> otherwise (the walk ends where a node has neither a next sibling nor a
  parent).\<close>

definition followingNodes :: "dom \<Rightarrow> nat \<Rightarrow> node list" where
  "followingNodes d start =
     (let scope = (case documentElement d of
                     None \<Rightarrow> document d # detached d
                   | Some r \<Rightarrow> if start \<in> set (ids r) then [r] else document d # detached d)
      in case List.find (\<lambda>t. start \<in> set (ids t)) scope of
           None \<Rightarrow> []
         | Some t \<Rightarrow> drop 1 (dropWhile (\<lambda>n. nodeId n \<noteq> start) (subtree t)))"

text \<open>\<open>range.setStartBefore(s); range.setEndAfter(e); range.deleteContents();
  range.insertNode(r)\<close> for two comments, \<open>e\<close> after \<open>s\<close> in the same tree. The tree is
  walked in tree order: nodes met between the two comments are taken out, an element
  whose whole subtree lies between them is taken out as one piece, and an element that
  holds only one of the two comments stays, without its children that lie in the range.
  The new node goes into the lowest element that holds both comments, at the place of
  the child where the range starts (after that child when the child stays).\<close>

datatype phase = Before | Within | After

fun cut :: "nat \<Rightarrow> nat \<Rightarrow> node \<Rightarrow> node \<Rightarrow> phase \<Rightarrow> phase \<times> node list \<times> node list"
  and cutAll :: "nat \<Rightarrow> nat \<Rightarrow> node \<Rightarrow> node list \<Rightarrow> phase
        \<Rightarrow> phase \<times> node list \<times> node list \<times> nat option" where
  "cut s e r (Comment i t) ph =
     (case ph of
        Before \<Rightarrow> if i = s then (Within, [], [Comment i t]) else (Before, [Comment i t], [])
      | Within \<Rightarrow> (if i = e then After else Within, [], [Comment i t])
      | After \<Rightarrow> (After, [Comment i t], []))"
| "cut s e r (Text i t) ph =
     (case ph of
        Within \<Rightarrow> (Within, [], [Text i t])
      | _ \<Rightarrow> (ph, [Text i t], []))"
| "cut s e r (Element i n a cs) ph =
     (if ph = After then (After, [Element i n a cs], [])
      else case cutAll s e r cs ph of (ph', kept, gone, mark) \<Rightarrow>
        if ph = Within \<and> ph' = Within then (Within, [], [Element i n a cs])
        else if ph = Before \<and> ph' = After then
          (After, [Element i n a (case mark of
                                   None \<Rightarrow> kept
                                 | Some m \<Rightarrow> take m kept @ [r] @ drop m kept)], gone)
        else (ph', [Element i n a kept], gone))"
| "cutAll s e r [] ph = (ph, [], [], None)"
| "cutAll s e r (c # cs) ph =
     (case cut s e r c ph of (ph1, kept1, gone1) \<Rightarrow>
        (case cutAll s e r cs ph1 of (ph2, kept2, gone2, mark2) \<Rightarrow>
           (ph2, kept1 @ kept2, gone1 @ gone2,
            if ph = Before \<and> ph1 = Within then Some (length kept1)
            else map_option (\<lambda>m. length kept1 + m) mark2)))"

definition rangeIn :: "nat \<Rightarrow> nat \<Rightarrow> node \<Rightarrow> node \<Rightarrow> node \<times> node list" where
  "rangeIn s e r t =
     (case cut s e r t Before of
        (ph, k # ks, gone) \<Rightarrow> (k, gone)
      | (ph, [], gone) \<Rightarrow> (t, []))"

definition rangeReplace :: "dom \<Rightarrow> nat \<Rightarrow> nat \<Rightarrow> node \<Rightarrow> dom" where
  "rangeReplace d s e r =
     d\<lparr>document := fst (rangeIn s e r (document d)),
       detached := map (\<lambda>t. fst (rangeIn s e r t)) (detached d)
                   @ snd (rangeIn s e r (document d))
                   @ concat (map (\<lambda>t. snd (rangeIn s e r t)) (detached d))\<rparr>"

text \<open>A node that was created and never put into a tree.\<close>

definition leaveOut :: "dom \<Rightarrow> node \<Rightarrow> dom" where
  "leaveOut d n = d\<lparr>detached := detached d @ [n]\<rparr>"

section \<open>The browser around the content script\<close>

text \<open>What the script reads from and hands to the browser. Calls that leave the page
  (the network, the clock, the loading of an external script) run on a state of the
  outside world \<open>'w\<close> and return the next one. \<open>fetch\<close> also reports the nodes that
  another task removed from their parents while the request was pending. The handlers
  of the processor itself (a \<open>clearStats\<close> message, a second pass started by a change of
  the \<open>esiEnabled\<close> setting) are taken to run between passes, not while a request of a
  pass is pending.\<close>

datatype 'a settled = Fulfilled 'a | Rejected string

text \<open>\<open>Response\<close>: \<open>status\<close>, \<open>statusText\<close> and the outcome of \<open>text()\<close>.\<close>

datatype response = Response nat string "string settled"

record fetchOptions =
  httpMethod :: string
  headers :: "(string \<times> string) list"
  credentials :: string

record script =
  attributes :: "(string \<times> string) list"
  src :: string
  textContent :: string

record 'w env =
  location_href :: string
  location_protocol :: string
  location_origin :: string
  newURL :: "string \<Rightarrow> string \<Rightarrow> string option"
  navigator_userAgent :: string
  navigator_language :: string
  fetch :: "'w \<Rightarrow> string \<Rightarrow> fetchOptions \<Rightarrow> response settled \<times> nat list \<times> 'w"
  dateNow :: "'w \<Rightarrow> nat"
  parseHTML :: "string \<Rightarrow> markup list"
  domParser :: "string \<Rightarrow> script list \<times> string option"
  scriptLoad :: "'w \<Rightarrow> script \<Rightarrow> bool \<times> 'w"

text \<open>\<open>newURL env url base\<close> is \<open>new URL(url, base).href\<close>, \<open>None\<close> when the constructor
  throws. \<open>parseHTML\<close> is the parser behind the \<open>innerHTML\<close> setter. \<open>domParser\<close> is
  \<open>DOMParser.parseFromString(content, 'text/html')\<close> as \<open>extractAndExecuteScripts\<close> uses
  it: the \<open>script\<close> elements of the parsed document in tree order, and
  \<open>body.innerHTML\<close> once they are removed (\<open>None\<close> when the document has no body).
  \<open>scriptLoad\<close> tells whether an appended external script fires \<open>load\<close> (\<open>True\<close>) or
  \<open>error\<close>.\<close>

section \<open>The processor\<close>

record fragment =
  fid :: nat
  furl :: string
  resolvedUrl :: string
  success :: bool
  error :: "string option"
  timestamp :: nat

record stats =
  total :: nat
  successful :: nat
  failed :: nat
  fragments :: "fragment list"

record header =
  name :: string
  hvalue :: string

text \<open>The fields of \<open>ESIProcessor\<close>, together with the page it works on, the world, the
  entry of \<open>storage.local\<close> under the key \<open>esiStats_<href>\<close>, and the callbacks handed to
  \<open>setTimeout\<close> by \<open>extractAndExecuteScripts\<close> (the scripts and the wrapper element they
  are to be appended to).\<close>

record 'w processor =
  enabled :: bool
  customHeaders :: "header list"
  forwardHeaders :: bool
  forwardCookies :: bool
  executeScripts :: bool
  stats :: stats
  fragmentCounter :: nat
  processedElements :: "nat set"
  page :: dom
  world :: 'w
  stored :: "stats option"
  timers :: "(script list \<times> nat) list"

definition emptyStats :: stats where
  "emptyStats = \<lparr>total = 0, successful = 0, failed = 0, fragments = []\<rparr>"

text \<open>The constructor followed by \<open>loadSettings\<close>: the five settings as read from the
  settings store.\<close>

definition constructor :: "bool \<Rightarrow> header list \<Rightarrow> bool \<Rightarrow> bool \<Rightarrow> bool
    \<Rightarrow> dom \<Rightarrow> 'w \<Rightarrow> stats option \<Rightarrow> 'w processor" where
  "constructor en hs fh fc ex d w st =
     \<lparr>enabled = en, customHeaders = hs, forwardHeaders = fh, forwardCookies = fc,
      executeScripts = ex, stats = emptyStats, fragmentCounter = 0,
      processedElements = {}, page = d, world = w, stored = st, timers = []\<rparr>"

text \<open>\<open>Math.max(...fragments.map(f => f.id || 0), 0)\<close>\<close>

definition maxId :: "fragment list \<Rightarrow> nat" where
  "maxId fs = fold max (map fid fs) 0"

definition loadStats :: "'w processor \<Rightarrow> 'w processor" where
  "loadStats p =
     (case stored p of
        None \<Rightarrow> p
      | Some st \<Rightarrow> p\<lparr>stats := st, fragmentCounter := maxId (fragments st)\<rparr>)"

definition saveStats :: "'w processor \<Rightarrow> 'w processor" where
  "saveStats p = p\<lparr>stored := Some (stats p)\<rparr>"

definition clearStats :: "'w processor \<Rightarrow> 'w processor" where
  "clearStats p =
     saveStats (p\<lparr>stats := emptyStats, fragmentCounter := 0, processedElements := {}\<rparr>)"

definition resolveUrl :: "'w env \<Rightarrow> string \<Rightarrow> string" where
  "resolveUrl env url =
     (if startsWith url ''http://'' \<or> startsWith url ''https://'' then url
      else if startsWith url ''//'' then location_protocol env @ url
      else case newURL env url (location_href env) of
             Some href \<Rightarrow> href
           | None \<Rightarrow>
               if startsWith url ''/'' then location_origin env @ url
               else throughLast CHR ''/'' (location_href env) @ url)"

section \<open>Replacing a directive\<close>

text \<open>The test of the loop of \<open>replaceCommentTryBlock\<close> on a node the walker yields
  (the walker shows comments only).\<close>

definition closesTry :: "node \<Rightarrow> bool" where
  "closesTry c = (isComment c \<and> nodeValue c \<noteq> [] \<and> str_includes (nodeValue c) ''</esi:try>'')"

definition replaceCommentTryBlock :: "dom \<Rightarrow> nat \<Rightarrow> node \<Rightarrow> dom" where
  "replaceCommentTryBlock d startComment replacement =
     (case List.find closesTry (followingNodes d startComment) of
        Some closing \<Rightarrow> rangeReplace d startComment (nodeId closing) replacement
      | None \<Rightarrow>
          if parentNode d startComment \<noteq> None
          then replaceChild d replacement startComment
          else leaveOut d replacement)"

definition replaceESIElement :: "dom \<Rightarrow> nat \<Rightarrow> node \<Rightarrow> string option \<Rightarrow> bool \<Rightarrow> dom" where
  "replaceESIElement d element replacement originalComment isTryBlock =
     (if parentNode d element = None then leaveOut d replacement
      else if isTryBlock \<or> (case originalComment of
                               None \<Rightarrow> False
                             | Some c \<Rightarrow> c \<noteq> [] \<and> str_includes c ''<esi:try>'')
      then (case findNode d element of
              Some (Comment i t) \<Rightarrow> replaceCommentTryBlock d element replacement
            | _ \<Rightarrow> replaceChild d replacement element)
      else replaceChild d replacement element)"

section \<open>Scripts of a fetched fragment\<close>

text \<open>\<open>extractAndExecuteScripts\<close> returns the markup to insert and hands the scripts to
  \<open>setTimeout\<close>; the callback runs later, see \<open>runTimer\<close>.\<close>

definition extractAndExecuteScripts :: "'w env \<Rightarrow> string \<Rightarrow> nat \<Rightarrow> 'w processor
    \<Rightarrow> string \<times> 'w processor" where
  "extractAndExecuteScripts env content container p =
     (if \<not> executeScripts p then (content, p)
      else case domParser env content of (scripts, body) \<Rightarrow>
        (case body of None \<Rightarrow> content | Some html \<Rightarrow> html,
         p\<lparr>timers := timers p @ [(scripts, container)]\<rparr>))"

text \<open>\<open>executeScript\<close> is an \<open>async\<close> function: its result is a promise. For an
  external script it returns, from inside its \<open>try\<close>, a promise that \<open>onload\<close> resolves
  and \<open>onerror\<close> rejects; returned without \<open>await\<close>, that promise settles after the
  \<open>try\<close> block is left, so a rejection is the rejection of \<open>executeScript\<close> itself.\<close>

definition executeScript :: "'w env \<Rightarrow> script \<Rightarrow> nat \<Rightarrow> dom \<times> 'w \<Rightarrow> bool \<times> dom \<times> 'w" where
  "executeScript env scriptElement container st =
     (case st of (d, w) \<Rightarrow>
        if src scriptElement \<noteq> [] then
          (let newScript = Element (nextId d) ''script'' (attributes scriptElement) [];
               d' = appendChild (d\<lparr>nextId := Suc (nextId d)\<rparr>) container newScript
           in case scriptLoad env w scriptElement of (loaded, w') \<Rightarrow> (loaded, d', w'))
        else
          (let newScript = Element (nextId d) ''script'' (attributes scriptElement)
                             [Text (Suc (nextId d)) (textContent scriptElement)];
               d' = appendChild (d\<lparr>nextId := Suc (Suc (nextId d))\<rparr>) container newScript
           in (True, d', w)))"

text \<open>The callback \<open>for (const script of scripts) await this.executeScript(...)\<close>: a
  rejected \<open>await\<close> throws out of the loop.\<close>

fun runScripts :: "'w env \<Rightarrow> script list \<Rightarrow> nat \<Rightarrow> dom \<times> 'w \<Rightarrow> dom \<times> 'w" where
  "runScripts env [] container st = st"
| "runScripts env (sc # scs) container st =
     (case executeScript env sc container st of
        (True, d, w) \<Rightarrow> runScripts env scs container (d, w)
      | (False, d, w) \<Rightarrow> (d, w))"

definition runTimer :: "'w env \<Rightarrow> 'w processor \<Rightarrow> 'w processor" where
  "runTimer env p =
     (case timers p of
        [] \<Rightarrow> p
      | (scripts, container) # rest \<Rightarrow>
          (case runScripts env scripts container (page p, world p) of
             (d, w) \<Rightarrow> p\<lparr>page := d, world := w, timers := rest\<rparr>))"

section \<open>Fetching a fragment\<close>

text \<open>Assignment to a property of the \<open>headers\<close> object.\<close>

definition setHeader :: "string \<Rightarrow> string \<Rightarrow> (string \<times> string) list \<Rightarrow> (string \<times> string) list" where
  "setHeader k v hs =
     (if k \<in> set (map fst hs) then map (\<lambda>(k', v'). if k' = k then (k', v) else (k', v')) hs
      else hs @ [(k, v)])"

definition requestHeaders :: "'w env \<Rightarrow> 'w processor \<Rightarrow> (string \<times> string) list" where
  "requestHeaders env p =
     (let h0 = [(''Accept'',
                 ''text/html,application/xhtml+xml,application/xml;q=0.9,*/*;q=0.8''),
                (''X-Requested-With'', ''XMLHttpRequest'')];
          h1 = (if forwardHeaders p \<and> navigator_userAgent env \<noteq> []
                then setHeader ''User-Agent'' (navigator_userAgent env) h0 else h0);
          h2 = (if forwardHeaders p \<and> navigator_language env \<noteq> []
                then setHeader ''Accept-Language'' (navigator_language env) h1 else h1)
      in fold (\<lambda>h hs. if name h \<noteq> [] \<and> hvalue h \<noteq> [] then setHeader (name h) (hvalue h) hs
                       else hs) (customHeaders p) h2)"

definition requestOptions :: "'w env \<Rightarrow> 'w processor \<Rightarrow> fetchOptions" where
  "requestOptions env p =
     \<lparr>httpMethod = ''GET'', headers = requestHeaders env p,
      credentials = (if forwardCookies p then ''include'' else ''same-origin'')\<rparr>"

definition fragmentMarkerId :: "nat \<Rightarrow> string" where
  "fragmentMarkerId fragmentId = ''esi-fragment-'' @ showNat fragmentId"

text \<open>The markup assigned to \<open>errorDiv.innerHTML\<close>.\<close>

definition errorMarkup :: "nat \<Rightarrow> string \<Rightarrow> string \<Rightarrow> string" where
  "errorMarkup fragmentId url message =
     [CHR 0x0A] @ ''        <!-- ESI Fragment '' @ showNat fragmentId @ '': '' @ url
       @ '' (FAILED) -->'' @ [CHR 0x0A]
       @ ''        <strong>ESI Error:</strong> Failed to load '' @ url @ ''<br>'' @ [CHR 0x0A]
       @ ''        <small>'' @ message @ ''</small>'' @ [CHR 0x0A] @ ''      ''"

definition errorDiv :: "'w env \<Rightarrow> nat \<Rightarrow> nat \<Rightarrow> string \<Rightarrow> string \<Rightarrow> node \<times> nat" where
  "errorDiv env k fragmentId url message =
     (case instantiateAll (Suc k) (parseHTML env (errorMarkup fragmentId url message)) of
        (inner, k') \<Rightarrow>
          (Element k ''div''
             [(''id'', fragmentMarkerId fragmentId),
              (''class'', ''esi-error''),
              (''data-esi-fragment'', ''true''),
              (''data-esi-url'', url),
              (''data-esi-resolved-url'', resolveUrl env url),
              (''style'', ''color: red; border: 1px solid red; padding: 10px; margin: 5px; background: #ffe6e6;'')]
             inner, k'))"

definition container :: "'w env \<Rightarrow> nat \<Rightarrow> nat \<Rightarrow> string \<Rightarrow> string \<Rightarrow> node \<times> nat" where
  "container env k fragmentId url processedContent =
     (case instantiateAll (k + 3) (parseHTML env processedContent) of
        (inner, k') \<Rightarrow>
          (Element k ''div''
             [(''id'', fragmentMarkerId fragmentId),
              (''style'', ''display: contents;''),
              (''data-esi-fragment'', ''true''),
              (''data-esi-url'', url),
              (''data-esi-resolved-url'', resolveUrl env url)]
             [Comment (k + 1) (''ESI Fragment '' @ showNat fragmentId @ '': '' @ url),
              Element (k + 2) ''div'' [(''style'', ''display: contents;'')] inner], k'))"

text \<open>The \<open>catch\<close> block of \<open>fetchAndReplaceESI\<close>.\<close>

definition fetchFailed :: "'w env \<Rightarrow> nat \<Rightarrow> string \<Rightarrow> string option \<Rightarrow> bool \<Rightarrow> string
    \<Rightarrow> 'w processor \<Rightarrow> 'w processor" where
  "fetchFailed env element url originalComment isTryBlock message p =
     (case errorDiv env (nextId (page p)) (fragmentCounter p) url message of
        (panel, k') \<Rightarrow>
          (let d = (page p)\<lparr>nextId := k'\<rparr>;
               d' = (if parentNode d element \<noteq> None
                     then replaceESIElement d element panel originalComment isTryBlock
                     else leaveOut d panel)
           in saveStats (p\<lparr>page := d',
                stats := (stats p)\<lparr>failed := failed (stats p) + 1,
                  fragments := fragments (stats p) @
                    [\<lparr>fid = fragmentCounter p, furl = url, resolvedUrl = resolveUrl env url,
                      success = False, error = Some message,
                      timestamp = dateNow env (world p)\<rparr>]\<rparr>\<rparr>)))"

text \<open>The rest of the \<open>try\<close> block once the body of the response is there.\<close>

definition fetchSucceeded :: "'w env \<Rightarrow> nat \<Rightarrow> string \<Rightarrow> string option \<Rightarrow> bool \<Rightarrow> string
    \<Rightarrow> 'w processor \<Rightarrow> 'w processor" where
  "fetchSucceeded env element url originalComment isTryBlock content p =
     (case extractAndExecuteScripts env content (nextId (page p) + 2) p of
        (processedContent, p1) \<Rightarrow>
          (case container env (nextId (page p1)) (fragmentCounter p1) url processedContent of
             (box, k') \<Rightarrow>
               (let d = replaceESIElement ((page p1)\<lparr>nextId := k'\<rparr>) element box
                          originalComment isTryBlock
                in saveStats (p1\<lparr>page := d,
                     stats := (stats p1)\<lparr>successful := successful (stats p1) + 1,
                       fragments := fragments (stats p1) @
                         [\<lparr>fid = fragmentCounter p1, furl = url,
                           resolvedUrl = resolveUrl env url,
                           success = True, error = None,
                           timestamp = dateNow env (world p1)\<rparr>]\<rparr>\<rparr>))))"

text \<open>The \<open>try\<close> block up to \<open>const content = await response.text()\<close>: the content, or
  the message of the error that is thrown (a rejected \<open>fetch\<close>, a status outside
  200..299, a rejected \<open>text()\<close>).\<close>

definition responseContent :: "response settled \<Rightarrow> string + string" where
  "responseContent outcome =
     (case outcome of
        Rejected message \<Rightarrow> Inl message
      | Fulfilled (Response status statusText body) \<Rightarrow>
          if \<not> (200 \<le> status \<and> status \<le> 299)
          then Inl (''HTTP '' @ showNat status @ '': '' @ statusText)
          else (case body of
                  Rejected message \<Rightarrow> Inl message
                | Fulfilled content \<Rightarrow> Inr content))"

definition fetchAndReplaceESI :: "'w env \<Rightarrow> nat \<Rightarrow> string \<Rightarrow> string option \<Rightarrow> bool
    \<Rightarrow> 'w processor \<Rightarrow> 'w processor" where
  "fetchAndReplaceESI env element url originalComment isTryBlock p =
     (if parentNode (page p) element = None then p
      else
        let p1 = p\<lparr>stats := (stats p)\<lparr>total := total (stats p) + 1\<rparr>,
                   fragmentCounter := fragmentCounter p + 1\<rparr>
        in case fetch env (world p1) (resolveUrl env url) (requestOptions env p1) of
             (outcome, removed, w) \<Rightarrow>
               (let p2 = p1\<lparr>world := w, page := fold removeNode removed (page p1)\<rparr>
                in case responseContent outcome of
                     Inl message \<Rightarrow>
                       fetchFailed env element url originalComment isTryBlock message p2
                   | Inr content \<Rightarrow>
                       fetchSucceeded env element url originalComment isTryBlock content p2))"

section \<open>The three phases of a pass\<close>

definition includeSelectors :: "string list" where
  "includeSelectors = [''esi:include'', ''ESI:INCLUDE'', ''esi-include'', ''ESI-INCLUDE'']"

text \<open>The body of the loop of \<open>processESITryBlocks\<close>.\<close>

definition processTryBlock :: "'w env \<Rightarrow> nat \<Rightarrow> 'w processor \<Rightarrow> 'w processor" where
  "processTryBlock env tryBlock p =
     (if tryBlock \<in> processedElements p then p
      else case querySelector (page p) tryBlock includeSelectors of
             None \<Rightarrow> p
           | Some includeTag \<Rightarrow>
               (case getAttribute includeTag ''src'' of
                  None \<Rightarrow> p
                | Some s \<Rightarrow>
                    if s = [] then p
                    else fetchAndReplaceESI env tryBlock s None True
                           (p\<lparr>processedElements :=
                                insert (nodeId includeTag)
                                  (insert tryBlock (processedElements p))\<rparr>)))"

definition processESITryBlocks :: "'w env \<Rightarrow> 'w processor \<Rightarrow> 'w processor" where
  "processESITryBlocks env p =
     fold (processTryBlock env) (querySelectorAll (page p) [''esi:try'', ''ESI:TRY'']) p"

definition isInsideESITryBlock :: "dom \<Rightarrow> nat \<Rightarrow> bool" where
  "isInsideESITryBlock d element =
     (\<exists>parent \<in> set (ancestorElements d element).
        tagName parent \<noteq> [] \<and>
        (toLowerCase (tagName parent) = ''esi:try'' \<or> tagName parent = ''ESI:TRY''))"

text \<open>The body of the second loop of \<open>processStandaloneESITags\<close>.\<close>

definition processStandaloneTag :: "'w env \<Rightarrow> nat \<Rightarrow> 'w processor \<Rightarrow> 'w processor" where
  "processStandaloneTag env tag p =
     (if tag \<in> processedElements p then p
      else case findNode (page p) tag of
             None \<Rightarrow> p
           | Some n \<Rightarrow>
               (case getAttribute n ''src'' of
                  None \<Rightarrow> p
                | Some s \<Rightarrow>
                    if s = [] then p
                    else fetchAndReplaceESI env tag s None False
                           (p\<lparr>processedElements := insert tag (processedElements p)\<rparr>)))"

definition processStandaloneESITags :: "'w env \<Rightarrow> 'w processor \<Rightarrow> 'w processor" where
  "processStandaloneESITags env p =
     (let standaloneIncludes =
            concat (map (\<lambda>selector.
              filter (\<lambda>tag. tag \<notin> processedElements p \<and> \<not> isInsideESITryBlock (page p) tag)
                (querySelectorAll (page p) [selector]))
              [''esi:include'', ''esi-include'', ''ESI:INCLUDE'', ''ESI-INCLUDE''])
      in fold (processStandaloneTag env) standaloneIncludes p)"

definition commentText :: "dom \<Rightarrow> nat \<Rightarrow> string" where
  "commentText d i = (case findNode d i of None \<Rightarrow> [] | Some n \<Rightarrow> nodeValue n)"

definition processESIComment :: "'w env \<Rightarrow> nat \<Rightarrow> 'w processor \<Rightarrow> 'w processor" where
  "processESIComment env commentNode p =
     (let comment = commentText (page p) commentNode
      in if str_includes comment ''<esi:try>'' then
           (case rxSearch tryIncludeRx comment of
              Some url \<Rightarrow> fetchAndReplaceESI env commentNode url (Some comment) True p
            | None \<Rightarrow> p)
         else
           (case rxSearch srcRx comment of
              Some url \<Rightarrow> fetchAndReplaceESI env commentNode url None False p
            | None \<Rightarrow> p))"

text \<open>The body of the second loop of \<open>processESIComments\<close>.\<close>

definition processCommentNode :: "'w env \<Rightarrow> nat \<Rightarrow> 'w processor \<Rightarrow> 'w processor" where
  "processCommentNode env commentNode p =
     (if commentNode \<in> processedElements p then p
      else processESIComment env commentNode
             (p\<lparr>processedElements := insert commentNode (processedElements p)\<rparr>))"

definition esiComments :: "'w processor \<Rightarrow> node \<Rightarrow> nat list" where
  "esiComments p root =
     map nodeId (filter (\<lambda>n. isComment n \<and> nodeId n \<notin> processedElements p
                           \<and> nodeValue n \<noteq> []
                           \<and> (str_includes (nodeValue n) ''<esi:include''
                                \<or> str_includes (nodeValue n) ''<esi:try>''))
                   (descendants root))"

definition processESIComments :: "'w env \<Rightarrow> 'w processor \<Rightarrow> 'w processor" where
  "processESIComments env p =
     (case documentElement (page p) of
        None \<Rightarrow> p
      | Some root \<Rightarrow> fold (processCommentNode env) (esiComments p root) p)"

definition processESI :: "'w env \<Rightarrow> 'w processor \<Rightarrow> 'w processor" where
  "processESI env p =
     (if \<not> enabled p then p
      else saveStats (processESIComments env (processStandaloneESITags env
             (processESITryBlocks env (p\<lparr>processedElements := {}\<rparr>)))))"

section \<open>Properties of the bookkeeping\<close>

definition statsBalanced :: "stats \<Rightarrow> bool" where
  "statsBalanced st = (total st = successful st + failed st)"

text \<open>The statistics after one more directive with outcome \<open>f\<close> has been counted.\<close>

definition outcomeOf :: "stats \<Rightarrow> fragment \<Rightarrow> stats" where
  "outcomeOf st f =
     \<lparr>total = total st + 1,
      successful = successful st + (if success f then 1 else 0),
      failed = failed st + (if success f then 0 else 1),
      fragments = fragments st @ [f]\<rparr>"

section \<open>Example pages\<close>

text \<open>A small URL constructor for the examples: it resolves a path-relative or
  path-absolute reference against an http(s) base by removing dot segments, and throws
  on a reference that names a scheme of its own.\<close>

fun splitOn :: "char \<Rightarrow> string \<Rightarrow> string list" where
  "splitOn c [] = [[]]"
| "splitOn c (x # xs) =
     (case splitOn c xs of
        [] \<Rightarrow> [[x]]
      | w # ws \<Rightarrow> if x = c then [] # w # ws else (x # w) # ws)"

fun joinWith :: "char \<Rightarrow> string list \<Rightarrow> string" where
  "joinWith c [] = []"
| "joinWith c [w] = w"
| "joinWith c (w # v # ws) = w @ [c] @ joinWith c (v # ws)"

fun dotSegments :: "string list \<Rightarrow> string list \<Rightarrow> string list" where
  "dotSegments acc [] = rev acc"
| "dotSegments acc (seg # segs) =
     (if seg = ''..'' then dotSegments (drop 1 acc) segs
      else if seg = ''.'' then dotSegments acc segs
      else dotSegments (seg # acc) segs)"

definition exampleNewURL :: "string \<Rightarrow> string \<Rightarrow> string option" where
  "exampleNewURL url base =
     (if str_includes url ''://'' then None
      else let parts = splitOn CHR ''/'' base;
               origin = joinWith CHR ''/'' (take 3 parts);
               dir = butlast (drop 3 parts);
               segs = (if startsWith url ''/'' then drop 1 (splitOn CHR ''/'' url)
                       else dir @ splitOn CHR ''/'' url)
           in Some (origin @ ''/'' @ joinWith CHR ''/'' (dotSegments [] segs)))"

text \<open>An environment for the examples: the page is \<open>https://h/a/b/\<close>, the network
  answers by URL, nothing else touches the page, the world counts the requests, and
  the markup parser turns text into one text node.\<close>

definition exampleEnv :: "(string \<Rightarrow> response settled) \<Rightarrow> nat env" where
  "exampleEnv net =
     \<lparr>location_href = ''https://h/a/b/'', location_protocol = ''https:'',
      location_origin = ''https://h'', newURL = exampleNewURL,
      navigator_userAgent = ''UA'', navigator_language = ''en'',
      fetch = (\<lambda>w url opts. (net url, [], Suc w)),
      dateNow = (\<lambda>w. w),
      parseHTML = (\<lambda>s. [MText s]),
      domParser = (\<lambda>s. ([], Some s)),
      scriptLoad = (\<lambda>w sc. (True, w))\<rparr>"

text \<open>A network that serves \<open>Hi\<close> at \<open>https://h/a.html\<close> and answers 404 elsewhere.\<close>

definition exampleNet :: "string \<Rightarrow> response settled" where
  "exampleNet url =
     (if url = ''https://h/a.html'' then Fulfilled (Response 200 ''OK'' (Fulfilled ''Hi''))
      else Fulfilled (Response 404 ''Not Found'' (Fulfilled [])))"

definition exampleRoot :: "node list \<Rightarrow> node" where
  "exampleRoot body =
     Element 1 ''html'' [] [Element 2 ''head'' [] [], Element 3 ''body'' [] body]"

definition examplePage :: "node list \<Rightarrow> nat \<Rightarrow> dom" where
  "examplePage body k =
     \<lparr>document = Element 0 ''#document'' [] [exampleRoot body], detached = [], nextId = k\<rparr>"

definition exampleProcessor :: "dom \<Rightarrow> nat processor" where
  "exampleProcessor d = constructor True [] False False False d 0 None"

text \<open>\<open><esi:include src="/a.html"></esi:include><esi:include src="/missing.html">
  </esi:include>\<close>\<close>

definition twoIncludes :: dom where
  "twoIncludes = examplePage
     [Element 4 ''esi:include'' [(''src'', ''/a.html'')] [],
      Element 5 ''esi:include'' [(''src'', ''/missing.html'')] []] 6"

text \<open>What a stretch of processing may do to the bookkeeping: it appends fragments
  numbered consecutively from the counter, counts each of them once in \<open>total\<close> and once
  in \<open>successful\<close> or \<open>failed\<close>, and only adds to the processed set.\<close>

definition advances :: "'w processor \<Rightarrow> 'w processor \<Rightarrow> bool" where
  "advances p p' =
     (\<exists>fs. fragments (stats p') = fragments (stats p) @ fs
         \<and> map fid fs = [fragmentCounter p + 1 ..< fragmentCounter p + 1 + length fs]
         \<and> fragmentCounter p' = fragmentCounter p + length fs
         \<and> total (stats p') = total (stats p) + length fs
         \<and> successful (stats p') + failed (stats p')
             = successful (stats p) + failed (stats p) + length fs
         \<and> processedElements p \<subseteq> processedElements p'
         \<and> enabled p' = enabled p)"

text \<open>A processor that still remembers node 7 from an earlier pass, on a page without
  directives.\<close>

definition rememberingProcessor :: "nat processor" where
  "rememberingProcessor = (exampleProcessor (examplePage [] 4))\<lparr>processedElements := {7}\<rparr>"



text \<open>A comment-form try block with another comment-form include between its markers:
  \<open><!--<esi:try><esi:include src="/a.html"/>--><!--<esi:include src="/b.html"/>-->
  <!--</esi:try>-->\<close>\<close>

definition tryWithInnerComment :: dom where
  "tryWithInnerComment = examplePage
     [Comment 4 (''<esi:try><esi:include src='' @ [CHR 0x22] @ ''/a.html'' @ [CHR 0x22] @ ''/>''),
      Comment 5 (''<esi:include src='' @ [CHR 0x22] @ ''/b.html'' @ [CHR 0x22] @ ''/>''),
      Comment 6 ''</esi:try>''] 7"

text \<open>The directives that the comment phase hands to \<open>fetchAndReplaceESI\<close>: the comments
  of its snapshot in which \<open>processESIComment\<close> finds a source.\<close>

definition commentDirectives :: "'w processor \<Rightarrow> nat list" where
  "commentDirectives p =
     (case documentElement (page p) of
        None \<Rightarrow> []
      | Some root \<Rightarrow>
          filter (\<lambda>c. let comment = commentText (page p) c in
                      if str_includes comment ''<esi:try>''
                      then rxSearch tryIncludeRx comment \<noteq> None
                      else rxSearch srcRx comment \<noteq> None)
            (esiComments p root))"

text \<open>An environment in which another task removes node 5 from the page while the
  request is pending.\<close>

definition racingEnv :: "nat env" where
  "racingEnv = (exampleEnv exampleNet)\<lparr>fetch := (\<lambda>w url opts. (exampleNet url, [5], Suc w))\<rparr>"

text \<open>A comment that opens a try block and names no include: \<open><!--<esi:try> soon-->\<close>\<close>

definition emptyTryComment :: dom where
  "emptyTryComment = examplePage [Comment 4 ''<esi:try> soon'', Text 5 ''after''] 6"

text \<open>Two scripts of a fragment, in the order of the markup: an external one that
  fails to load, then an inline one.\<close>

definition failingExternal :: script where
  "failingExternal = \<lparr>attributes = [(''src'', ''https://h/missing.js'')],
     src = ''https://h/missing.js'', textContent = []\<rparr>"

definition inlineScript :: script where
  "inlineScript = \<lparr>attributes = [], src = [], textContent = ''window.ready = true''\<rparr>"

definition failingLoadEnv :: "nat env" where
  "failingLoadEnv = (exampleEnv exampleNet)\<lparr>scriptLoad := (\<lambda>w sc. (False, w))\<rparr>"

text \<open>A page in which the wrapper element 9 of an inserted fragment waits for its
  scripts.\<close>

definition fragmentInserted :: dom where
  "fragmentInserted = examplePage
     [Element 7 ''div'' [(''id'', ''esi-fragment-1'')]
        [Comment 8 ''ESI Fragment 1: /a.html'', Element 9 ''div'' [] [Text 10 ''Hi'']]] 11"

section \<open>Well-formed pages\<close>

text \<open>Every node has its own identity, and the identities still to be given out are
  larger than all that are in use.\<close>

definition wellFormed :: "dom \<Rightarrow> bool" where
  "wellFormed d =
     (distinct (map nodeId (allNodes d)) \<and> (\<forall>n \<in> set (allNodes d). nodeId n < nextId d))"

text \<open>Tree order (as the list of node identities) before and after a replacement: the
  stretch that is the subtree \<open>T\<close> has given way to the nodes of \<open>new\<close>, and nothing
  else has moved.\<close>

definition replacedIn :: "nat list \<Rightarrow> node \<Rightarrow> node \<Rightarrow> nat list \<Rightarrow> bool" where
  "replacedIn before T new after =
     (\<exists>A B. before = A @ ids T @ B \<and> after = A @ ids new @ B)"

text \<open>The error panel that \<open>fetchAndReplaceESI\<close> builds when the fetch for \<open>url\<close> fails
  with \<open>message\<close> on the page of \<open>p\<close>.\<close>

definition errorPanel :: "'w env \<Rightarrow> 'w processor \<Rightarrow> string \<Rightarrow> string \<Rightarrow> node" where
  "errorPanel env p url message =
     fst (errorDiv env (nextId (page p)) (fragmentCounter p + 1) url message)"


section \<open>Tree order around a range\<close>

text \<open>The identities before the first \<open>s\<close> and after the first \<open>e\<close> of a list.\<close>

definition idsBefore :: "nat \<Rightarrow> nat list \<Rightarrow> nat list" where
  "idsBefore s L = takeWhile (\<lambda>i. i \<noteq> s) L"

definition idsAfter :: "nat \<Rightarrow> nat list \<Rightarrow> nat list" where
  "idsAfter e L = drop 1 (dropWhile (\<lambda>i. i \<noteq> e) L)"

text \<open>The elements of a tree that hold the node \<open>e\<close> below them, from the outermost
  in.\<close>

fun holders :: "nat \<Rightarrow> node \<Rightarrow> nat list" where
  "holders e (Element i n a cs) =
     (if e \<in> set (concat (map ids cs)) then i # concat (map (holders e) cs) else [])"
| "holders e (Comment i t) = []"
| "holders e (Text i t) = []"

text \<open>The elements that hold \<open>e\<close> and begin after \<open>s\<close>: below the lowest element that
  holds both, the child that holds \<open>s\<close> is passed, and the holders of \<open>e\<close> in the
  children after it are collected.\<close>

fun lateHolders :: "nat \<Rightarrow> nat \<Rightarrow> node \<Rightarrow> nat list"
  and lateHoldersAmong :: "nat \<Rightarrow> nat \<Rightarrow> node list \<Rightarrow> nat list" where
  "lateHolders s e (Element i n a cs) = lateHoldersAmong s e cs"
| "lateHolders s e (Comment i t) = []"
| "lateHolders s e (Text i t) = []"
| "lateHoldersAmong s e [] = []"
| "lateHoldersAmong s e (c # cs) =
     (if s \<in> set (ids c)
      then (if e \<in> set (ids c) then lateHolders s e c else concat (map (holders e) cs))
      else lateHoldersAmong s e cs)"

text \<open>Where \<open>cutAll\<close> marks a place among the children it keeps, the new node goes
  there.\<close>

definition placed :: "node \<Rightarrow> node list \<Rightarrow> nat option \<Rightarrow> node list" where
  "placed r kept mark = (case mark of None \<Rightarrow> kept | Some m \<Rightarrow> take m kept @ [r] @ drop m kept)"

text \<open>Every node of the list that carries the identity \<open>i\<close> is a comment.\<close>

definition commentId :: "nat \<Rightarrow> node list \<Rightarrow> bool" where
  "commentId i ns = (\<forall>n \<in> set (concat (map subtree ns)). nodeId n = i \<longrightarrow> isComment n)"

text \<open>A try block in comment form whose closing comment lies inside an element that
  begins after the opening comment:
  \<open><!--<esi:try><esi:include src="/a.html"/>--><p>x</p><span>b<!--</esi:try>--></span>tail\<close>\<close>

definition nestedClosingBody :: "node list" where
  "nestedClosingBody =
     [Comment 4 (''<esi:try><esi:include src='' @ [CHR 0x22] @ ''/a.html'' @ [CHR 0x22] @ ''/>''),
      Element 5 ''p'' [] [Text 6 ''x''],
      Element 7 ''span'' [] [Text 8 ''b'', Comment 9 ''</esi:try>''],
      Text 10 ''tail'']"

definition nestedClosing :: dom where
  "nestedClosing = examplePage nestedClosingBody 11"

section \<open>Bookkeeping of one directive\<close>

lemma extractAndExecuteScripts_frame:
  "extractAndExecuteScripts env content c p = (out, p1) \<Longrightarrow>
     stats p1 = stats p \<and> fragmentCounter p1 = fragmentCounter p
     \<and> processedElements p1 = processedElements p \<and> enabled p1 = enabled p
     \<and> page p1 = page p \<and> world p1 = world p"
  by (auto simp: extractAndExecuteScripts_def split: if_splits prod.splits)

lemma fetchFailed_book:
  "stats (fetchFailed env el u oc tb msg p) =
     (stats p)\<lparr>failed := failed (stats p) + 1,
       fragments := fragments (stats p) @
         [\<lparr>fid = fragmentCounter p, furl = u, resolvedUrl = resolveUrl env u,
           success = False, error = Some msg, timestamp = dateNow env (world p)\<rparr>]\<rparr>"
  "fragmentCounter (fetchFailed env el u oc tb msg p) = fragmentCounter p"
  "processedElements (fetchFailed env el u oc tb msg p) = processedElements p"
  "enabled (fetchFailed env el u oc tb msg p) = enabled p"
  by (simp_all add: fetchFailed_def saveStats_def Let_def split: prod.splits)

lemma fetchSucceeded_book:
  "stats (fetchSucceeded env el u oc tb content p) =
     (stats p)\<lparr>successful := successful (stats p) + 1,
       fragments := fragments (stats p) @
         [\<lparr>fid = fragmentCounter p, furl = u, resolvedUrl = resolveUrl env u,
           success = True, error = None, timestamp = dateNow env (world p)\<rparr>]\<rparr>"
  "fragmentCounter (fetchSucceeded env el u oc tb content p) = fragmentCounter p"
  "processedElements (fetchSucceeded env el u oc tb content p) = processedElements p"
  "enabled (fetchSucceeded env el u oc tb content p) = enabled p"
  by (auto simp: fetchSucceeded_def saveStats_def Let_def split: prod.splits
      dest!: extractAndExecuteScripts_frame)

lemma fetchAndReplaceESI_skip:
  "parentNode (page p) el = None \<Longrightarrow> fetchAndReplaceESI env el u oc tb p = p"
  by (simp add: fetchAndReplaceESI_def)

lemma fetchAndReplaceESI_book:
  assumes "parentNode (page p) el \<noteq> None"
  shows "stats (fetchAndReplaceESI env el u oc tb p)
           = outcomeOf (stats p) (last (fragments (stats (fetchAndReplaceESI env el u oc tb p))))"
    and "fid (last (fragments (stats (fetchAndReplaceESI env el u oc tb p))))
           = fragmentCounter p + 1"
    and "furl (last (fragments (stats (fetchAndReplaceESI env el u oc tb p)))) = u"
    and "fragmentCounter (fetchAndReplaceESI env el u oc tb p) = fragmentCounter p + 1"
    and "processedElements (fetchAndReplaceESI env el u oc tb p) = processedElements p"
    and "enabled (fetchAndReplaceESI env el u oc tb p) = enabled p"
  using assms
  by (auto simp: fetchAndReplaceESI_def Let_def fetchFailed_book fetchSucceeded_book
      outcomeOf_def split: prod.splits sum.splits intro!: stats.equality)

section \<open>Bookkeeping of a pass\<close>

lemma upt_chain:
  "xs = [c ..< c + a] \<Longrightarrow> ys = [c + a ..< c + a + b] \<Longrightarrow> xs @ ys = [c ..< c + (a + b)]"
  using upt_add_eq_append [of c "c + a" b] by (simp add: add.assoc del: upt_Suc)

lemma advances_refl: "advances p p"
  by (simp add: advances_def)

lemma advances_trans:
  assumes "advances p q" and "advances q r"
  shows "advances p r"
proof -
  define c where "c = fragmentCounter p + 1"
  from assms(1) obtain fs where fs:
    "fragments (stats q) = fragments (stats p) @ fs"
    "map fid fs = [c ..< c + length fs]"
    "fragmentCounter q = fragmentCounter p + length fs"
    "total (stats q) = total (stats p) + length fs"
    "successful (stats q) + failed (stats q)
       = successful (stats p) + failed (stats p) + length fs"
    "processedElements p \<subseteq> processedElements q" "enabled q = enabled p"
    unfolding advances_def c_def by blast
  from assms(2) obtain gs where gs:
    "fragments (stats r) = fragments (stats q) @ gs"
    "map fid gs = [fragmentCounter q + 1 ..< fragmentCounter q + 1 + length gs]"
    "fragmentCounter r = fragmentCounter q + length gs"
    "total (stats r) = total (stats q) + length gs"
    "successful (stats r) + failed (stats r)
       = successful (stats q) + failed (stats q) + length gs"
    "processedElements q \<subseteq> processedElements r" "enabled r = enabled q"
    unfolding advances_def by blast
  have "fragmentCounter q + 1 = c + length fs"
    using fs(3) by (simp add: c_def)
  with gs(2) have g: "map fid gs = [c + length fs ..< c + length fs + length gs]"
    by (simp only:)
  have "map fid fs @ map fid gs = [c ..< c + (length fs + length gs)]"
    using fs(2) g by (rule upt_chain)
  then have ids: "map fid (fs @ gs)
      = [fragmentCounter p + 1 ..< fragmentCounter p + 1 + length (fs @ gs)]"
    by (simp only: map_append length_append c_def)
  have rest: "fragments (stats r) = fragments (stats p) @ (fs @ gs)"
    "fragmentCounter r = fragmentCounter p + length (fs @ gs)"
    "total (stats r) = total (stats p) + length (fs @ gs)"
    "successful (stats r) + failed (stats r)
       = successful (stats p) + failed (stats p) + length (fs @ gs)"
    "processedElements p \<subseteq> processedElements r" "enabled r = enabled p"
    using fs(1,3,4,5,6,7) gs(1,3,4,5,6,7) by auto
  show ?thesis
    unfolding advances_def
    using rest ids by blast
qed

lemma advances_mark:
  "advances p (p\<lparr>processedElements := insert x (processedElements p)\<rparr>)"
  by (auto simp: advances_def)

lemma advances_fetchAndReplaceESI: "advances p (fetchAndReplaceESI env el u oc tb p)"
proof (cases "parentNode (page p) el = None")
  case True
  then show ?thesis by (simp add: fetchAndReplaceESI_skip advances_refl)
next
  case False
  note b = fetchAndReplaceESI_book [OF False, of env u oc tb]
  let ?q = "fetchAndReplaceESI env el u oc tb p"
  let ?f = "last (fragments (stats ?q))"
  have st: "stats ?q = outcomeOf (stats p) ?f" by (rule b(1))
  have fr: "fragments (stats ?q) = fragments (stats p) @ [?f]"
    by (subst st) (simp add: outcomeOf_def)
  have tot: "total (stats ?q) = total (stats p) + 1"
    by (subst st) (simp add: outcomeOf_def)
  have sf: "successful (stats ?q) + failed (stats ?q)
      = successful (stats p) + failed (stats p) + 1"
    by (subst (1 2) st) (simp add: outcomeOf_def)
  show ?thesis
    unfolding advances_def
    apply (rule exI [of _ "[?f]"])
    using fr tot sf b(2,4,5,6) by simp
qed

lemma advances_fold:
  assumes "\<And>x q. advances q (f x q)"
  shows "advances p (fold f xs p)"
proof (induction xs arbitrary: p)
  case Nil
  show ?case by (simp add: advances_refl)
next
  case (Cons x xs)
  have "advances p (f x p)" by (rule assms)
  moreover have "advances (f x p) (fold f xs (f x p))" by (rule Cons.IH)
  ultimately show ?case by (simp add: advances_trans)
qed

lemma advances_marked_fetch:
  assumes "processedElements p \<subseteq> processedElements q" "fragmentCounter q = fragmentCounter p"
    "stats q = stats p" "enabled q = enabled p"
  shows "advances p (fetchAndReplaceESI env el u oc tb q)"
proof -
  have "advances p q" using assms by (simp add: advances_def)
  then show ?thesis by (rule advances_trans) (rule advances_fetchAndReplaceESI)
qed

lemma advances_processTryBlock: "advances p (processTryBlock env x p)"
proof -
  have m: "advances p (fetchAndReplaceESI env x u None True
      (p\<lparr>processedElements := insert i (insert x (processedElements p))\<rparr>))" for u i
    by (rule advances_marked_fetch) auto
  show ?thesis
    by (simp add: processTryBlock_def advances_refl m split: option.splits)
qed

lemma advances_processStandaloneTag: "advances p (processStandaloneTag env x p)"
proof -
  have m: "advances p (fetchAndReplaceESI env x u None False
      (p\<lparr>processedElements := insert x (processedElements p)\<rparr>))" for u
    by (rule advances_marked_fetch) auto
  show ?thesis
    by (simp add: processStandaloneTag_def advances_refl m split: option.splits)
qed

lemma advances_processESIComment: "advances p (processESIComment env x p)"
  by (simp add: processESIComment_def Let_def advances_refl advances_fetchAndReplaceESI
      split: option.splits)

lemma advances_processCommentNode: "advances p (processCommentNode env x p)"
proof (cases "x \<in> processedElements p")
  case True
  then show ?thesis by (simp add: processCommentNode_def advances_refl)
next
  case False
  have "advances p (p\<lparr>processedElements := insert x (processedElements p)\<rparr>)"
    by (rule advances_mark)
  then have "advances p (processESIComment env x
      (p\<lparr>processedElements := insert x (processedElements p)\<rparr>))"
    by (rule advances_trans) (rule advances_processESIComment)
  then show ?thesis using False by (simp add: processCommentNode_def)
qed

lemma advances_processESITryBlocks: "advances p (processESITryBlocks env p)"
  unfolding processESITryBlocks_def
  by (rule advances_fold) (rule advances_processTryBlock)

lemma advances_processStandaloneESITags: "advances p (processStandaloneESITags env p)"
  unfolding processStandaloneESITags_def Let_def
  by (rule advances_fold) (rule advances_processStandaloneTag)

lemma advances_processESIComments: "advances p (processESIComments env p)"
proof (cases "documentElement (page p)")
  case None
  then show ?thesis by (simp add: processESIComments_def advances_refl)
next
  case (Some root)
  have "advances p (fold (processCommentNode env) (esiComments p root) p)"
    by (rule advances_fold) (rule advances_processCommentNode)
  then show ?thesis using Some by (simp add: processESIComments_def)
qed



section \<open>The claims about the statistics\<close>







lemma clearStats_fields:
  "fragments (stats (clearStats p)) = []" "fragmentCounter (clearStats p) = 0"
  "processedElements (clearStats p) = {}" "statsBalanced (stats (clearStats p))"
  by (simp_all add: clearStats_def saveStats_def emptyStats_def statsBalanced_def)





section \<open>The processed set\<close>

text \<open>The claim C7 says that starting a pass does not empty the processed set. Here a
  processor that remembers node 7 runs a pass and has forgotten it afterwards.\<close>

theorem processed_set_cleared_by_pass_counterexample:
  "7 \<in> processedElements rememberingProcessor
   \<and> 7 \<notin> processedElements (processESI (exampleEnv exampleNet) rememberingProcessor)"
proof -
  have "processedElements (processESI (exampleEnv exampleNet) rememberingProcessor) = {}"
    by code_simp
  then show ?thesis by (simp add: rememberingProcessor_def)
qed

lemma processESI_forgets:
  "enabled p \<Longrightarrow> processESI env p = processESI env (p\<lparr>processedElements := {}\<rparr>)"
  by (simp add: processESI_def)

lemma advances_processed: "advances p q \<Longrightarrow> processedElements p \<subseteq> processedElements q"
  by (auto simp: advances_def)

text \<open>C7, as the code has it. The processed set is emptied by \<open>clearStats\<close> and also by
  \<open>processESI\<close> itself: a pass of an enabled processor starts with
  \<open>processedElements.clear()\<close>, so its result does not depend on what the set held
  before. A pass of a disabled processor does nothing. No other operation removes
  anything from the set: \<open>fetchAndReplaceESI\<close>, \<open>loadStats\<close>, \<open>saveStats\<close> and the
  script callback leave it as it is, and the three phases only add to it.\<close>

theorem processed_set_cleared_by_clear_and_pass:
  "processedElements (clearStats p) = {}
   \<and> (enabled p \<longrightarrow> processESI env p = processESI env (p\<lparr>processedElements := {}\<rparr>))
   \<and> (\<not> enabled p \<longrightarrow> processESI env p = p)
   \<and> processedElements (fetchAndReplaceESI env el u oc tb p) = processedElements p
   \<and> processedElements p \<subseteq> processedElements (processESITryBlocks env p)
   \<and> processedElements p \<subseteq> processedElements (processStandaloneESITags env p)
   \<and> processedElements p \<subseteq> processedElements (processESIComments env p)
   \<and> processedElements (loadStats p) = processedElements p
   \<and> processedElements (saveStats p) = processedElements p
   \<and> processedElements (runTimer env p) = processedElements p"
proof (intro conjI)
  show "processedElements (fetchAndReplaceESI env el u oc tb p) = processedElements p"
    by (cases "parentNode (page p) el = None")
      (simp_all add: fetchAndReplaceESI_skip fetchAndReplaceESI_book(5))
  show "processedElements (runTimer env p) = processedElements p"
    by (simp add: runTimer_def split: list.splits prod.splits)
qed (simp_all add: clearStats_fields processESI_def loadStats_def saveStats_def
      advances_processed advances_processESITryBlocks advances_processStandaloneESITags
      advances_processESIComments split: option.splits)

theorem processed_set_cleared_by_clear_and_pass_witness:
  "enabled rememberingProcessor
   \<and> processESI (exampleEnv exampleNet) rememberingProcessor
       = processESI (exampleEnv exampleNet) (rememberingProcessor\<lparr>processedElements := {}\<rparr>)
   \<and> \<not> enabled (rememberingProcessor\<lparr>enabled := False\<rparr>)
   \<and> processedElements (processESI (exampleEnv exampleNet)
         (rememberingProcessor\<lparr>enabled := False\<rparr>)) = {7}"
proof -
  have e: "enabled rememberingProcessor"
    by (simp add: rememberingProcessor_def exampleProcessor_def constructor_def)
  have d: "\<not> enabled (rememberingProcessor\<lparr>enabled := False\<rparr>)" by simp
  have s: "processedElements (rememberingProcessor\<lparr>enabled := False\<rparr>) = {7}"
    by (simp add: rememberingProcessor_def)
  show ?thesis
    using processed_set_cleared_by_clear_and_pass
      [of rememberingProcessor "exampleEnv exampleNet"]
      processed_set_cleared_by_clear_and_pass
      [of "rememberingProcessor\<lparr>enabled := False\<rparr>" "exampleEnv exampleNet"] e d s
    by simp
qed


section \<open>Counting the directives\<close>

text \<open>The claim C2 says that every directive the scanner discovers adds one to
  \<open>total\<close>. On this page the comment phase discovers two directives, the comments 4
  and 5; replacing the try block of comment 4 takes comment 5 out of the tree, the
  entry check of \<open>fetchAndReplaceESI\<close> then skips it, and \<open>total\<close> is 1 after the
  pass.\<close>

theorem total_counts_discovered_directives_counterexample:
  "commentDirectives (exampleProcessor tryWithInnerComment) = [4, 5]
   \<and> total (stats (processESI (exampleEnv exampleNet) (exampleProcessor tryWithInnerComment))) = 1"
proof -
  have a: "commentDirectives (exampleProcessor tryWithInnerComment) = [4, 5]"
    by code_simp
  have b: "total (stats (processESI (exampleEnv exampleNet)
      (exampleProcessor tryWithInnerComment))) = 1"
    by code_simp
  show ?thesis using a b by simp
qed

text \<open>C2, as the code has it. A directive handed to \<open>fetchAndReplaceESI\<close> adds exactly
  one to \<open>total\<close> if its anchor has a parent at that moment, whatever happens next (the
  fetch succeeds or fails, the anchor is removed while the request is pending); if the
  anchor has no parent any more, the call returns at once and nothing is counted.\<close>

theorem total_counts_attached_directives:
  "(parentNode (page p) el \<noteq> None \<longrightarrow>
      total (stats (fetchAndReplaceESI env el u oc tb p)) = total (stats p) + 1)
   \<and> (parentNode (page p) el = None \<longrightarrow> fetchAndReplaceESI env el u oc tb p = p)"
proof (intro conjI impI)
  assume a: "parentNode (page p) el \<noteq> None"
  let ?q = "fetchAndReplaceESI env el u oc tb p"
  have st: "stats ?q = outcomeOf (stats p) (last (fragments (stats ?q)))"
    by (rule fetchAndReplaceESI_book(1) [OF a])
  show "total (stats ?q) = total (stats p) + 1"
    by (subst st) (simp add: outcomeOf_def)
next
  assume "parentNode (page p) el = None"
  then show "fetchAndReplaceESI env el u oc tb p = p"
    by (rule fetchAndReplaceESI_skip)
qed

theorem total_counts_attached_directives_witness:
  "parentNode (page (exampleProcessor twoIncludes)) 5 \<noteq> None
   \<and> parentNode (fold removeNode [5] (page (exampleProcessor twoIncludes))) 5 = None
   \<and> total (stats (fetchAndReplaceESI racingEnv 5 ''/missing.html'' None False
        (exampleProcessor twoIncludes))) = 1
   \<and> parentNode (page (exampleProcessor (removeNode 5 twoIncludes))) 5 = None
   \<and> fetchAndReplaceESI racingEnv 5 ''/missing.html'' None False
        (exampleProcessor (removeNode 5 twoIncludes))
       = exampleProcessor (removeNode 5 twoIncludes)"
proof -
  have a: "parentNode (page (exampleProcessor twoIncludes)) 5 \<noteq> None"
    by code_simp
  have r: "parentNode (fold removeNode [5] (page (exampleProcessor twoIncludes))) 5 = None"
    by code_simp
  have b: "parentNode (page (exampleProcessor (removeNode 5 twoIncludes))) 5 = None"
    by code_simp
  have z: "total (stats (exampleProcessor twoIncludes)) = 0"
    by (simp add: exampleProcessor_def constructor_def emptyStats_def)
  show ?thesis
    using total_counts_attached_directives [of "exampleProcessor twoIncludes" 5 racingEnv
        "''/missing.html''" None False]
      total_counts_attached_directives [of "exampleProcessor (removeNode 5 twoIncludes)" 5
        racingEnv "''/missing.html''" None False] a r b z
    by simp
qed

section \<open>A try comment without an include\<close>

lemma str_includes_nonempty: "str_includes s p \<Longrightarrow> p \<noteq> [] \<Longrightarrow> s \<noteq> []"
  by (cases s) auto

text \<open>C10. A comment whose text contains \<open><esi:try>\<close> and in which the pattern for an
  include tag with a quoted \<open>src\<close> finds nothing: the loop of \<open>processESIComments\<close>
  adds it to the processed set and changes nothing else, so no request is made (the
  world is the same), no fragment is recorded, the counters are the same and the page,
  with the comment in it, is the same. Such a comment under the root is in the snapshot
  of the scan.\<close>

theorem try_comment_without_include_is_only_marked:
  assumes "str_includes (commentText (page p) c) ''<esi:try>''"
    and "rxSearch tryIncludeRx (commentText (page p) c) = None"
    and "c \<notin> processedElements p"
  shows "processCommentNode env c p = p\<lparr>processedElements := insert c (processedElements p)\<rparr>
    \<and> (Comment c (commentText (page p) c) \<in> set (descendants root)
          \<longrightarrow> c \<in> set (esiComments p root))"
proof
  show "processCommentNode env c p = p\<lparr>processedElements := insert c (processedElements p)\<rparr>"
    using assms by (simp add: processCommentNode_def processESIComment_def Let_def)
next
  have "commentText (page p) c \<noteq> []"
    using assms(1) by (rule str_includes_nonempty) simp
  then show "Comment c (commentText (page p) c) \<in> set (descendants root)
          \<longrightarrow> c \<in> set (esiComments p root)"
    using assms(1,3) by (force simp: esiComments_def)
qed

theorem try_comment_without_include_is_only_marked_witness:
  "str_includes (commentText (page (exampleProcessor emptyTryComment)) 4) ''<esi:try>''
   \<and> rxSearch tryIncludeRx (commentText (page (exampleProcessor emptyTryComment)) 4) = None
   \<and> 4 \<notin> processedElements (exampleProcessor emptyTryComment)
   \<and> processCommentNode (exampleEnv exampleNet) 4 (exampleProcessor emptyTryComment)
       = (exampleProcessor emptyTryComment)\<lparr>processedElements := {4}\<rparr>"
proof -
  have t: "commentText (page (exampleProcessor emptyTryComment)) 4 = ''<esi:try> soon''"
    by code_simp
  have a: "str_includes (commentText (page (exampleProcessor emptyTryComment)) 4) ''<esi:try>''"
    unfolding t by code_simp
  have b: "rxSearch tryIncludeRx (commentText (page (exampleProcessor emptyTryComment)) 4) = None"
    unfolding t by code_simp
  have c: "4 \<notin> processedElements (exampleProcessor emptyTryComment)"
    "processedElements (exampleProcessor emptyTryComment) = {}"
    by (simp_all add: exampleProcessor_def constructor_def)
  show ?thesis
    using try_comment_without_include_is_only_marked [OF a b c(1), of "exampleEnv exampleNet"]
      a b c
    by simp
qed


section \<open>Resolving URLs\<close>



section \<open>Running the scripts of a fragment\<close>

text \<open>The loop of the callback ends at the first external script whose load fails,
  whatever comes after it; after a script that loads, and after an inline script, it
  goes on.\<close>

lemma runScripts_stops_at_failed_load:
  assumes "src sc \<noteq> []" and "scriptLoad env w sc = (False, w')"
  shows "runScripts env (sc # rest) c (d, w)
    = (appendChild (d\<lparr>nextId := Suc (nextId d)\<rparr>) c
         (Element (nextId d) ''script'' (attributes sc) []), w')"
  using assms by (simp add: executeScript_def Let_def)

lemma runScripts_goes_on_after_inline:
  assumes "src sc = []"
  shows "runScripts env (sc # rest) c (d, w)
    = runScripts env rest c
        (appendChild (d\<lparr>nextId := Suc (Suc (nextId d))\<rparr>) c
           (Element (nextId d) ''script'' (attributes sc)
              [Text (Suc (nextId d)) (textContent sc)]), w)"
  using assms by (simp add: executeScript_def Let_def)

text \<open>C9 says that a script that fails does not keep the scripts after it from
  running. Here the fragment has an external script whose load fails, then an inline
  script. The callback appends the external script to the wrapper element 9 and stops:
  the inline script is never appended.\<close>

theorem failed_external_script_stops_the_rest:
  "fst (runScripts failingLoadEnv [failingExternal, inlineScript] 9 (fragmentInserted, 0))
     = examplePage
         [Element 7 ''div'' [(''id'', ''esi-fragment-1'')]
            [Comment 8 ''ESI Fragment 1: /a.html'',
             Element 9 ''div'' []
               [Text 10 ''Hi'',
                Element 11 ''script'' [(''src'', ''https://h/missing.js'')] []]]] 12"
  by code_simp


section \<open>Replacing a child\<close>

lemma ids_Element: "ids (Element i n a cs) = i # concat (map ids cs)"
  by (simp add: ids_def [abs_def] map_concat comp_def)

lemma ids_leaf: "ids (Comment i t) = [i]" "ids (Text i t) = [i]"
  by (simp_all add: ids_def)

lemma nodeId_in_ids: "nodeId t \<in> set (ids t)"
  by (cases t) (simp_all add: ids_def)

lemma ids_nonempty: "ids t \<noteq> []"
  by (cases t) (simp_all add: ids_def)

lemma hd_ids: "hd (ids t) = nodeId t"
  by (cases t) (simp_all add: ids_def)

lemma replaceIn_absent:
  "old \<notin> set (concat (map ids (childNodes t))) \<Longrightarrow> replaceIn old new t = t"
proof (induction t)
  case (Element i n a cs)
  have "map (\<lambda>c. if nodeId c = old then new else replaceIn old new c) cs = cs"
  proof (rule map_idI)
    fix c assume c: "c \<in> set cs"
    with Element.prems have o: "old \<notin> set (ids c)" by auto
    then have "nodeId c \<noteq> old" using nodeId_in_ids [of c] by auto
    moreover have "old \<notin> set (concat (map ids (childNodes c)))"
      using o by (cases c) (auto simp: ids_Element)
    then have "replaceIn old new c = c" using Element.IH c by blast
    ultimately show "(if nodeId c = old then new else replaceIn old new c) = c" by simp
  qed
  then show ?case by simp
qed simp_all

lemma replaceIn_absent_ids: "old \<notin> set (ids t) \<Longrightarrow> replaceIn old new t = t"
  by (rule replaceIn_absent) (cases t, auto simp: ids_Element)

lemma replace_absent_children:
  assumes "old \<notin> set (concat (map ids cs))"
  shows "map (\<lambda>c. if nodeId c = old then new else replaceIn old new c) cs = cs"
proof (rule map_idI)
  fix c assume "c \<in> set cs"
  with assms have o: "old \<notin> set (ids c)" by auto
  then have "nodeId c \<noteq> old" using nodeId_in_ids [of c] by auto
  then show "(if nodeId c = old then new else replaceIn old new c) = c"
    using o by (simp add: replaceIn_absent_ids)
qed

lemma replacedIn_here: "replacedIn (ids T @ B) T new (ids new @ B)"
  unfolding replacedIn_def by (intro exI [of _ "[]"] exI [of _ B]) simp

lemma replacedIn_prepend:
  assumes "replacedIn xs T new ys"
  shows "replacedIn (P @ xs) T new (P @ ys)"
proof -
  from assms obtain A B where "xs = A @ ids T @ B" "ys = A @ ids new @ B"
    unfolding replacedIn_def by (elim exE conjE)
  then have "P @ xs = (P @ A) @ ids T @ B \<and> P @ ys = (P @ A) @ ids new @ B" by simp
  then show ?thesis unfolding replacedIn_def by (intro exI)
qed

lemma replacedIn_append:
  assumes "replacedIn xs T new ys"
  shows "replacedIn (xs @ S) T new (ys @ S)"
proof -
  from assms obtain A B where "xs = A @ ids T @ B" "ys = A @ ids new @ B"
    unfolding replacedIn_def by (elim exE conjE)
  then have "xs @ S = A @ ids T @ (B @ S) \<and> ys @ S = A @ ids new @ (B @ S)" by simp
  then show ?thesis unfolding replacedIn_def by (intro exI)
qed

text \<open>Replacing among the children of a list of siblings.\<close>

lemma replace_among_children:
  assumes ih: "\<And>c. c \<in> set cs \<Longrightarrow> distinct (ids c) \<Longrightarrow> old \<in> set (ids c) \<Longrightarrow> old \<noteq> nodeId c
      \<Longrightarrow> \<exists>T. nodeId T = old \<and> T \<in> set (subtree c)
            \<and> replacedIn (ids c) T new (ids (replaceIn old new c))"
    and "distinct (concat (map ids cs))" and "old \<in> set (concat (map ids cs))"
  shows "\<exists>T. nodeId T = old \<and> T \<in> set (concat (map subtree cs))
      \<and> replacedIn (concat (map ids cs)) T new
          (concat (map ids (map (\<lambda>c. if nodeId c = old then new else replaceIn old new c) cs)))"
  using assms
proof (induction cs)
  case Nil
  then show ?case by simp
next
  case (Cons c cs)
  let ?f = "\<lambda>c. if nodeId c = old then new else replaceIn old new c"
  from Cons.prems(2) have dc: "distinct (ids c)" and dcs: "distinct (concat (map ids cs))"
    and disj: "set (ids c) \<inter> set (concat (map ids cs)) = {}"
    by auto
  show ?case
  proof (cases "old \<in> set (ids c)")
    case True
    then have "old \<notin> set (concat (map ids cs))" using disj by auto
    then have rest: "map ?f cs = cs"
      by (rule replace_absent_children)
    show ?thesis
    proof (cases "nodeId c = old")
      case True
      have "c \<in> set (concat (map subtree (c # cs)))" by (cases c) auto
      moreover have "replacedIn (concat (map ids (c # cs))) c new
          (concat (map ids (map ?f (c # cs))))"
        using True rest replacedIn_here [of c "concat (map ids cs)" new] by simp
      ultimately show ?thesis using True by (intro exI [of _ c]) simp
    next
      case False
      have "\<exists>T. nodeId T = old \<and> T \<in> set (subtree c)
            \<and> replacedIn (ids c) T new (ids (replaceIn old new c))"
        using dc True False by (intro Cons.prems(1)) simp_all
      then obtain T where T: "nodeId T = old" "T \<in> set (subtree c)"
        "replacedIn (ids c) T new (ids (replaceIn old new c))"
        by (elim exE conjE)
      have "replacedIn (ids c @ concat (map ids cs)) T new
          (ids (replaceIn old new c) @ concat (map ids cs))"
        using T(3) by (rule replacedIn_append)
      then have "replacedIn (concat (map ids (c # cs))) T new
          (concat (map ids (map ?f (c # cs))))"
        using False rest by simp
      moreover have "T \<in> set (concat (map subtree (c # cs)))" using T(2) by simp
      ultimately show ?thesis using T(1) by (intro exI [of _ T]) simp
    qed
  next
    case False
    then have c_same: "?f c = c"
      using nodeId_in_ids [of c] by (auto simp: replaceIn_absent_ids)
    from False Cons.prems(3) have m: "old \<in> set (concat (map ids cs))" by auto
    have ih': "\<And>x. x \<in> set cs \<Longrightarrow> distinct (ids x) \<Longrightarrow> old \<in> set (ids x) \<Longrightarrow> old \<noteq> nodeId x
      \<Longrightarrow> \<exists>T. nodeId T = old \<and> T \<in> set (subtree x)
            \<and> replacedIn (ids x) T new (ids (replaceIn old new x))"
      using Cons.prems(1) by simp
    have "\<exists>T. nodeId T = old \<and> T \<in> set (concat (map subtree cs))
      \<and> replacedIn (concat (map ids cs)) T new (concat (map ids (map ?f cs)))"
      using ih' dcs m by (rule Cons.IH)
    then obtain T where T: "nodeId T = old" "T \<in> set (concat (map subtree cs))"
      "replacedIn (concat (map ids cs)) T new (concat (map ids (map ?f cs)))"
      by (elim exE conjE)
    have "replacedIn (ids c @ concat (map ids cs)) T new
        (ids c @ concat (map ids (map ?f cs)))"
      using T(3) by (rule replacedIn_prepend)
    then have "replacedIn (concat (map ids (c # cs))) T new
        (concat (map ids (map ?f (c # cs))))"
      using c_same by simp
    moreover have "T \<in> set (concat (map subtree (c # cs)))" using T(2) by simp
    ultimately show ?thesis using T(1) by (intro exI [of _ T]) simp
  qed
qed

lemma replaceIn_ids:
  "distinct (ids t) \<Longrightarrow> old \<in> set (ids t) \<Longrightarrow> old \<noteq> nodeId t
    \<Longrightarrow> \<exists>T. nodeId T = old \<and> T \<in> set (subtree t)
          \<and> replacedIn (ids t) T new (ids (replaceIn old new t))"
proof (induction t)
  case (Element i n a cs)
  let ?f = "\<lambda>c. if nodeId c = old then new else replaceIn old new c"
  from Element.prems have d: "distinct (concat (map ids cs))"
    and m: "old \<in> set (concat (map ids cs))"
    by (auto simp: ids_Element)
  have "\<exists>T. nodeId T = old \<and> T \<in> set (concat (map subtree cs))
      \<and> replacedIn (concat (map ids cs)) T new (concat (map ids (map ?f cs)))"
    using Element.IH d m by (rule replace_among_children)
  then obtain T where T: "nodeId T = old" "T \<in> set (concat (map subtree cs))"
      "replacedIn (concat (map ids cs)) T new (concat (map ids (map ?f cs)))"
    by (elim exE conjE)
  have "replacedIn ([i] @ concat (map ids cs)) T new ([i] @ concat (map ids (map ?f cs)))"
    using T(3) by (rule replacedIn_prepend)
  then have "replacedIn (ids (Element i n a cs)) T new
      (ids (replaceIn old new (Element i n a cs)))"
    by (simp add: ids_Element)
  moreover have "T \<in> set (subtree (Element i n a cs))" using T(2) by simp
  ultimately show ?case using T(1) by (intro exI [of _ T]) simp
qed (simp_all add: ids_leaf)


section \<open>Finding nodes in a well-formed page\<close>

lemma find_by_key:
  "distinct (map f xs) \<Longrightarrow> x \<in> set xs \<Longrightarrow> List.find (\<lambda>y. f y = f x) xs = Some x"
proof (induction xs)
  case Nil
  then show ?case by simp
next
  case (Cons y ys)
  then show ?case by (cases "y = x") force+
qed

lemma allNodes_nextId [simp]: "allNodes (d\<lparr>nextId := k\<rparr>) = allNodes d"
  by (simp add: allNodes_def)

lemma parentNode_nextId [simp]: "parentNode (d\<lparr>nextId := k\<rparr>) i = parentNode d i"
  by (simp add: parentNode_def)

lemma findNode_nextId [simp]: "findNode (d\<lparr>nextId := k\<rparr>) i = findNode d i"
  by (simp add: findNode_def)

lemma findNode_unique:
  assumes "distinct (map nodeId (allNodes d))" "T \<in> set (allNodes d)"
  shows "findNode d (nodeId T) = Some T"
  unfolding findNode_def using assms by (rule find_by_key)

lemma child_has_parent:
  "old \<in> set (ids t) \<Longrightarrow> old \<noteq> nodeId t
    \<Longrightarrow> \<exists>q \<in> set (subtree t). old \<in> set (map nodeId (childNodes q))"
proof (induction t)
  case (Element i n a cs)
  from Element.prems obtain c where c: "c \<in> set cs" "old \<in> set (ids c)"
    by (auto simp: ids_Element)
  show ?case
  proof (cases "old = nodeId c")
    case True
    then have "old \<in> set (map nodeId (childNodes (Element i n a cs)))" using c(1) by simp
    then show ?thesis by (intro bexI [of _ "Element i n a cs"]) simp_all
  next
    case False
    with Element.IH c obtain q where "q \<in> set (subtree c)"
      "old \<in> set (map nodeId (childNodes q))"
      by blast
    then show ?thesis using c(1) by (intro bexI [of _ q]) auto
  qed
qed (simp_all add: ids_leaf)

lemma attached_has_parent:
  assumes "old \<in> set (ids (document d))" "old \<noteq> nodeId (document d)"
  shows "parentNode d old \<noteq> None"
proof -
  from child_has_parent [OF assms] obtain q where
    "q \<in> set (subtree (document d))" "old \<in> set (map nodeId (childNodes q))"
    by blast
  then have "\<exists>q \<in> set (allNodes d). old \<in> set (map nodeId (childNodes q))"
    by (auto simp: allNodes_def)
  then have "List.find (\<lambda>q. old \<in> set (map nodeId (childNodes q))) (allNodes d) \<noteq> None"
    unfolding find_None_iff by blast
  then show ?thesis by (simp add: parentNode_def)
qed

lemma replaceChild_document:
  assumes dist: "distinct (map nodeId (allNodes d))"
    and "T \<in> set (subtree (document d))" "nodeId T = old"
    "old \<noteq> nodeId (document d)"
  shows "findNode d old = Some T"
    and "replacedIn (ids (document d)) T new (ids (document (replaceChild d new old)))"
proof -
  have "T \<in> set (allNodes d)" using assms(2) by (simp add: allNodes_def)
  with dist have "findNode d (nodeId T) = Some T" by (rule findNode_unique)
  then show f: "findNode d old = Some T" using assms(3) by simp
  have dd: "distinct (ids (document d))"
    using dist by (simp add: allNodes_def ids_def)
  have m: "old \<in> set (ids (document d))"
    using assms(2,3) by (auto simp: ids_def)
  from replaceIn_ids [OF dd m assms(4), of new] obtain T' where T':
    "nodeId T' = old" "T' \<in> set (subtree (document d))"
    "replacedIn (ids (document d)) T' new (ids (replaceIn old new (document d)))"
    by (elim exE conjE)
  have "T' \<in> set (allNodes d)" using T'(2) by (simp add: allNodes_def)
  with dist have "findNode d (nodeId T') = Some T'" by (rule findNode_unique)
  with f T'(1) have "T' = T" by simp
  with T'(3) show "replacedIn (ids (document d)) T new (ids (document (replaceChild d new old)))"
    using f by (simp add: replaceChild_def)
qed


section \<open>The nodes of a new panel\<close>




section \<open>A failed fetch\<close>

















section \<open>A try block whose include fails\<close>



lemma errorPanel_marked [simp]:
  "errorPanel env (p\<lparr>processedElements := s\<rparr>) u m = errorPanel env p u m"
  by (simp add: errorPanel_def)




section \<open>Cutting a range out of a tree\<close>

lemma cut_After:
  "cut s e r n After = (After, [n], [])"
  "cutAll s e r ns After = (After, ns, [], None)"
  by (induction s e r n "After" and s e r ns "After" rule: cut_cutAll.induct) simp_all

lemma cut_Before_absent:
  "s \<notin> set (ids n) \<Longrightarrow> cut s e r n Before = (Before, [n], [])"
  "s \<notin> set (concat (map ids ns)) \<Longrightarrow> cutAll s e r ns Before = (Before, ns, [], None)"
  by (induction s e r n "Before" and s e r ns "Before" rule: cut_cutAll.induct)
    (simp_all add: ids_Element ids_leaf)

lemma cut_Within_absent:
  "e \<notin> set (ids n) \<Longrightarrow> cut s e r n Within = (Within, [], [n])"
  "e \<notin> set (concat (map ids ns)) \<Longrightarrow> cutAll s e r ns Within = (Within, [], ns, None)"
  by (induction s e r n "Within" and s e r ns "Within" rule: cut_cutAll.induct)
    (simp_all add: ids_Element ids_leaf)

lemma idsAfter_Cons:
  "idsAfter e (e # L) = L" "i \<noteq> e \<Longrightarrow> idsAfter e (i # L) = idsAfter e L"
  by (simp_all add: idsAfter_def)

lemma idsAfter_append_in: "e \<in> set xs \<Longrightarrow> idsAfter e (xs @ ys) = idsAfter e xs @ ys"
  by (induction xs) (auto simp: idsAfter_def)

lemma idsAfter_append_out: "e \<notin> set xs \<Longrightarrow> idsAfter e (xs @ ys) = idsAfter e ys"
  by (induction xs) (auto simp: idsAfter_def)

lemma idsBefore_Cons:
  "idsBefore s (s # L) = []" "i \<noteq> s \<Longrightarrow> idsBefore s (i # L) = i # idsBefore s L"
  by (simp_all add: idsBefore_def)

lemma idsBefore_append_in: "s \<in> set xs \<Longrightarrow> idsBefore s (xs @ ys) = idsBefore s xs"
  by (induction xs) (auto simp: idsBefore_def)

lemma idsBefore_append_out: "s \<notin> set xs \<Longrightarrow> idsBefore s (xs @ ys) = xs @ idsBefore s ys"
  by (induction xs) (auto simp: idsBefore_def)

lemma holders_absent: "e \<notin> set (ids n) \<Longrightarrow> holders e n = []"
  by (cases n) (simp_all add: ids_Element)

lemma holders_absent_all: "e \<notin> set (concat (map ids ns)) \<Longrightarrow> concat (map (holders e) ns) = []"
  by (induction ns) (simp_all add: holders_absent)

lemma commentId_Cons: "commentId i (c # cs) \<Longrightarrow> commentId i [c] \<and> commentId i cs"
  by (simp add: commentId_def)

lemma commentId_Element: "commentId i [Element j n a cs] \<Longrightarrow> commentId i cs \<and> i \<noteq> j"
  by (auto simp: commentId_def)

lemma commentId_member: "commentId i cs \<Longrightarrow> c \<in> set cs \<Longrightarrow> commentId i [c]"
  by (auto simp: commentId_def)

text \<open>Inside the range, up to the closing comment.\<close>

lemma cutAll_Within_closing:
  assumes ih: "\<And>c. c \<in> set cs \<Longrightarrow> e \<in> set (ids c) \<Longrightarrow> commentId e [c]
      \<Longrightarrow> fst (cut s e r c Within) = After
        \<and> concat (map ids (fst (snd (cut s e r c Within)))) = holders e c @ idsAfter e (ids c)"
    and "e \<in> set (concat (map ids cs))" and "distinct (concat (map ids cs))"
    and "commentId e cs"
  shows "fst (cutAll s e r cs Within) = After
    \<and> concat (map ids (fst (snd (cutAll s e r cs Within))))
        = concat (map (holders e) cs) @ idsAfter e (concat (map ids cs))
    \<and> snd (snd (snd (cutAll s e r cs Within))) = None"
  using assms
proof (induction cs)
  case Nil
  then show ?case by simp
next
  case (Cons c cs)
  from Cons.prems(3) have disj: "set (ids c) \<inter> set (concat (map ids cs)) = {}"
    and dcs: "distinct (concat (map ids cs))"
    by auto
  from Cons.prems(4) have cc: "commentId e [c]" and ccs: "commentId e cs"
    using commentId_Cons by blast+
  show ?case
  proof (cases "e \<in> set (ids c)")
    case True
    then have out: "e \<notin> set (concat (map ids cs))" using disj by auto
    have "fst (cut s e r c Within) = After
        \<and> concat (map ids (fst (snd (cut s e r c Within)))) = holders e c @ idsAfter e (ids c)"
      using True cc by (intro Cons.prems(1)) simp_all
    then obtain k g where c1: "cut s e r c Within = (After, k, g)"
      and k: "concat (map ids k) = holders e c @ idsAfter e (ids c)"
      by (cases "cut s e r c Within") auto
    have "cutAll s e r (c # cs) Within = (After, k @ cs, g, None)"
      by (simp add: c1 cut_After)
    then show ?thesis
      using k True out by (simp add: holders_absent_all idsAfter_append_in)
  next
    case False
    then have c1: "cut s e r c Within = (Within, [], [c])" by (rule cut_Within_absent)
    from False Cons.prems(2) have m: "e \<in> set (concat (map ids cs))" by auto
    have ih': "\<And>x. x \<in> set cs \<Longrightarrow> e \<in> set (ids x) \<Longrightarrow> commentId e [x]
      \<Longrightarrow> fst (cut s e r x Within) = After
        \<and> concat (map ids (fst (snd (cut s e r x Within)))) = holders e x @ idsAfter e (ids x)"
      using Cons.prems(1) by simp
    note r = Cons.IH [OF ih' m dcs ccs]
    obtain k g where c2: "cutAll s e r cs Within = (After, k, g, None)"
      and k: "concat (map ids k) = concat (map (holders e) cs) @ idsAfter e (concat (map ids cs))"
      using r by (cases "cutAll s e r cs Within") auto
    have "cutAll s e r (c # cs) Within = (After, k, c # g, None)"
      by (simp add: c1 c2)
    then show ?thesis
      using k False by (simp add: holders_absent idsAfter_append_out)
  qed
qed

lemma cut_Within_closing:
  "e \<in> set (ids n) \<Longrightarrow> distinct (ids n) \<Longrightarrow> commentId e [n]
    \<Longrightarrow> fst (cut s e r n Within) = After
      \<and> concat (map ids (fst (snd (cut s e r n Within)))) = holders e n @ idsAfter e (ids n)"
proof (induction n)
  case (Element i n a cs)
  from Element.prems(3) have cc: "commentId e cs" and ne: "e \<noteq> i"
    using commentId_Element by blast+
  with Element.prems have m: "e \<in> set (concat (map ids cs))"
    and d: "distinct (concat (map ids cs))"
    by (auto simp: ids_Element)
  have ih: "\<And>c. c \<in> set cs \<Longrightarrow> e \<in> set (ids c) \<Longrightarrow> commentId e [c]
      \<Longrightarrow> fst (cut s e r c Within) = After
        \<and> concat (map ids (fst (snd (cut s e r c Within)))) = holders e c @ idsAfter e (ids c)"
  proof -
    fix c assume c: "c \<in> set cs" "e \<in> set (ids c)" "commentId e [c]"
    have "distinct (ids c)" using d c(1) by (induction cs) auto
    then show "fst (cut s e r c Within) = After
        \<and> concat (map ids (fst (snd (cut s e r c Within)))) = holders e c @ idsAfter e (ids c)"
      using c by (intro Element.IH)
  qed
  from cutAll_Within_closing [OF ih m d cc]
  obtain k g where c2: "cutAll s e r cs Within = (After, k, g, None)"
    and k: "concat (map ids k) = concat (map (holders e) cs) @ idsAfter e (concat (map ids cs))"
    by (cases "cutAll s e r cs Within") auto
  have "cut s e r (Element i n a cs) Within = (After, [Element i n a k], g)"
    by (simp add: c2)
  then show ?case
    using k m ne by (simp add: ids_Element idsAfter_Cons)
next
  case (Comment i t)
  then show ?case by (simp add: ids_leaf idsAfter_Cons)
next
  case (Text i t)
  then show ?case by (simp add: ids_leaf commentId_def)
qed

text \<open>From the opening comment on, in a subtree without the closing comment.\<close>

lemma cutAll_Before_opening:
  assumes ih: "\<And>c. c \<in> set cs \<Longrightarrow> s \<in> set (ids c) \<Longrightarrow> commentId s [c]
      \<Longrightarrow> fst (cut s e r c Before) = Within
        \<and> concat (map ids (fst (snd (cut s e r c Before)))) = idsBefore s (ids c)"
    and "s \<in> set (concat (map ids cs))" and "e \<notin> set (concat (map ids cs))"
    and "commentId s cs"
  shows "fst (cutAll s e r cs Before) = Within
    \<and> concat (map ids (fst (snd (cutAll s e r cs Before)))) = idsBefore s (concat (map ids cs))"
  using assms
proof (induction cs)
  case Nil
  then show ?case by simp
next
  case (Cons c cs)
  from Cons.prems(4) have cc: "commentId s [c]" and ccs: "commentId s cs"
    using commentId_Cons by blast+
  from Cons.prems(3) have ec: "e \<notin> set (ids c)" and ecs: "e \<notin> set (concat (map ids cs))"
    by auto
  show ?case
  proof (cases "s \<in> set (ids c)")
    case True
    have "fst (cut s e r c Before) = Within
        \<and> concat (map ids (fst (snd (cut s e r c Before)))) = idsBefore s (ids c)"
      using True cc by (intro Cons.prems(1)) simp_all
    then obtain k g where c1: "cut s e r c Before = (Within, k, g)"
      and k: "concat (map ids k) = idsBefore s (ids c)"
      by (cases "cut s e r c Before") auto
    have "cutAll s e r (c # cs) Before = (Within, k, g @ cs, Some (length k))"
      by (simp add: c1 cut_Within_absent(2) [OF ecs])
    then show ?thesis
      using k True by (simp add: idsBefore_append_in)
  next
    case False
    then have c1: "cut s e r c Before = (Before, [c], [])" by (rule cut_Before_absent)
    from False Cons.prems(2) have m: "s \<in> set (concat (map ids cs))" by auto
    have ih': "\<And>x. x \<in> set cs \<Longrightarrow> s \<in> set (ids x) \<Longrightarrow> commentId s [x]
      \<Longrightarrow> fst (cut s e r x Before) = Within
        \<and> concat (map ids (fst (snd (cut s e r x Before)))) = idsBefore s (ids x)"
      using Cons.prems(1) by simp
    note r = Cons.IH [OF ih' m ecs ccs]
    obtain k g mk where c2: "cutAll s e r cs Before = (Within, k, g, mk)"
      and k: "concat (map ids k) = idsBefore s (concat (map ids cs))"
      using r by (cases "cutAll s e r cs Before") auto
    have "fst (cutAll s e r (c # cs) Before) = Within"
      "fst (snd (cutAll s e r (c # cs) Before)) = c # k"
      by (simp_all add: c1 c2)
    then show ?thesis
      using k False by (simp add: idsBefore_append_out)
  qed
qed

lemma cut_Before_opening:
  "s \<in> set (ids n) \<Longrightarrow> e \<notin> set (ids n) \<Longrightarrow> commentId s [n]
    \<Longrightarrow> fst (cut s e r n Before) = Within
      \<and> concat (map ids (fst (snd (cut s e r n Before)))) = idsBefore s (ids n)"
proof (induction n)
  case (Element i n a cs)
  from Element.prems(3) have cc: "commentId s cs" and ne: "s \<noteq> i"
    using commentId_Element by blast+
  with Element.prems have m: "s \<in> set (concat (map ids cs))"
    and ecs: "e \<notin> set (concat (map ids cs))"
    by (auto simp: ids_Element)
  have ih: "\<And>c. c \<in> set cs \<Longrightarrow> s \<in> set (ids c) \<Longrightarrow> commentId s [c]
      \<Longrightarrow> fst (cut s e r c Before) = Within
        \<and> concat (map ids (fst (snd (cut s e r c Before)))) = idsBefore s (ids c)"
  proof -
    fix c assume c: "c \<in> set cs" "s \<in> set (ids c)" "commentId s [c]"
    have "e \<notin> set (ids c)" using ecs c(1) by auto
    then show "fst (cut s e r c Before) = Within
        \<and> concat (map ids (fst (snd (cut s e r c Before)))) = idsBefore s (ids c)"
      using c by (intro Element.IH)
  qed
  from cutAll_Before_opening [OF ih m ecs cc]
  obtain k g mk where c2: "cutAll s e r cs Before = (Within, k, g, mk)"
    and k: "concat (map ids k) = idsBefore s (concat (map ids cs))"
    by (cases "cutAll s e r cs Before") auto
  have "cut s e r (Element i n a cs) Before = (Within, [Element i n a k], g)"
    by (simp add: c2)
  then show ?case
    using k ne by (simp add: ids_Element idsBefore_Cons)
next
  case (Comment i t)
  then show ?case by (simp add: ids_leaf idsBefore_Cons)
next
  case (Text i t)
  then show ?case by (simp add: ids_leaf commentId_def)
qed

text \<open>The whole range, in a subtree that holds both comments.\<close>

lemma placed_Cons:
  "placed r (c # k) (map_option (\<lambda>m. length [c] + m) mk) = c # placed r k mk"
  by (cases mk) (simp_all add: placed_def)

lemma placed_here: "placed r (k1 @ k2) (Some (length k1)) = k1 @ [r] @ k2"
  by (simp add: placed_def)

lemma cutAll_range:
  assumes ih: "\<And>c. c \<in> set cs \<Longrightarrow> s \<in> set (ids c) \<Longrightarrow> e \<in> set (ids c)
      \<Longrightarrow> e \<notin> set (idsBefore s (ids c)) \<Longrightarrow> commentId s [c] \<Longrightarrow> commentId e [c]
      \<Longrightarrow> fst (cut s e r c Before) = After
        \<and> concat (map ids (fst (snd (cut s e r c Before))))
            = idsBefore s (ids c) @ ids r @ lateHolders s e c @ idsAfter e (ids c)"
    and "s \<in> set (concat (map ids cs))" and "e \<in> set (concat (map ids cs))"
    and "e \<notin> set (idsBefore s (concat (map ids cs)))"
    and "distinct (concat (map ids cs))"
    and "commentId s cs" and "commentId e cs"
  shows "fst (cutAll s e r cs Before) = After
    \<and> concat (map ids (placed r (fst (snd (cutAll s e r cs Before)))
          (snd (snd (snd (cutAll s e r cs Before))))))
        = idsBefore s (concat (map ids cs)) @ ids r @ lateHoldersAmong s e cs
          @ idsAfter e (concat (map ids cs))"
  using assms
proof (induction cs)
  case Nil
  then show ?case by simp
next
  case (Cons c cs)
  from Cons.prems(5) have disj: "set (ids c) \<inter> set (concat (map ids cs)) = {}"
    and dc: "distinct (ids c)" and dcs: "distinct (concat (map ids cs))"
    by auto
  from Cons.prems(6) have sc: "commentId s [c]" and scs: "commentId s cs"
    using commentId_Cons by blast+
  from Cons.prems(7) have ec: "commentId e [c]" and ecs: "commentId e cs"
    using commentId_Cons by blast+
  show ?case
  proof (cases "s \<in> set (ids c)")
    case True
    note s_in = True
    show ?thesis
    proof (cases "e \<in> set (ids c)")
      case True
      have eb: "e \<notin> set (idsBefore s (ids c))"
        using Cons.prems(4) s_in by (simp add: idsBefore_append_in)
      have "fst (cut s e r c Before) = After
        \<and> concat (map ids (fst (snd (cut s e r c Before))))
            = idsBefore s (ids c) @ ids r @ lateHolders s e c @ idsAfter e (ids c)"
        using s_in True eb sc ec by (intro Cons.prems(1)) simp_all
      then obtain k g where c1: "cut s e r c Before = (After, k, g)"
        and k: "concat (map ids k)
            = idsBefore s (ids c) @ ids r @ lateHolders s e c @ idsAfter e (ids c)"
        by (cases "cut s e r c Before") auto
      have "cutAll s e r (c # cs) Before = (After, k @ cs, g, None)"
        by (simp add: c1 cut_After)
      then show ?thesis
        using k s_in True
        by (simp add: placed_def idsBefore_append_in idsAfter_append_in)
    next
      case False
      then have m: "e \<in> set (concat (map ids cs))" using Cons.prems(3) by auto
      have "fst (cut s e r c Before) = Within
        \<and> concat (map ids (fst (snd (cut s e r c Before)))) = idsBefore s (ids c)"
        using s_in False sc by (rule cut_Before_opening)
      then obtain k1 g1 where c1: "cut s e r c Before = (Within, k1, g1)"
        and k1: "concat (map ids k1) = idsBefore s (ids c)"
        by (cases "cut s e r c Before") auto
      have ihw: "\<And>x. x \<in> set cs \<Longrightarrow> e \<in> set (ids x) \<Longrightarrow> commentId e [x]
        \<Longrightarrow> fst (cut s e r x Within) = After
          \<and> concat (map ids (fst (snd (cut s e r x Within)))) = holders e x @ idsAfter e (ids x)"
      proof -
        fix x assume x: "x \<in> set cs" "e \<in> set (ids x)" "commentId e [x]"
        have "distinct (ids x)" using dcs x(1) by (induction cs) auto
        with x show "fst (cut s e r x Within) = After
          \<and> concat (map ids (fst (snd (cut s e r x Within)))) = holders e x @ idsAfter e (ids x)"
          by (intro cut_Within_closing)
      qed
      from cutAll_Within_closing [OF ihw m dcs ecs]
      obtain k2 g2 where c2: "cutAll s e r cs Within = (After, k2, g2, None)"
        and k2: "concat (map ids k2)
            = concat (map (holders e) cs) @ idsAfter e (concat (map ids cs))"
        by (cases "cutAll s e r cs Within") auto
      have "cutAll s e r (c # cs) Before = (After, k1 @ k2, g1 @ g2, Some (length k1))"
        by (simp add: c1 c2)
      then show ?thesis
        using k1 k2 s_in False
        by (simp add: placed_here idsBefore_append_in idsAfter_append_out)
    qed
  next
    case False
    then have c1: "cut s e r c Before = (Before, [c], [])" by (rule cut_Before_absent)
    have b: "idsBefore s (concat (map ids (c # cs))) = ids c @ idsBefore s (concat (map ids cs))"
      using False by (simp add: idsBefore_append_out)
    with Cons.prems(4) have e_out: "e \<notin> set (ids c)"
      and eb: "e \<notin> set (idsBefore s (concat (map ids cs)))"
      by auto
    from False Cons.prems(2) have ms: "s \<in> set (concat (map ids cs))" by auto
    from e_out Cons.prems(3) have me: "e \<in> set (concat (map ids cs))" by auto
    have ih': "\<And>x. x \<in> set cs \<Longrightarrow> s \<in> set (ids x) \<Longrightarrow> e \<in> set (ids x)
      \<Longrightarrow> e \<notin> set (idsBefore s (ids x)) \<Longrightarrow> commentId s [x] \<Longrightarrow> commentId e [x]
      \<Longrightarrow> fst (cut s e r x Before) = After
        \<and> concat (map ids (fst (snd (cut s e r x Before))))
            = idsBefore s (ids x) @ ids r @ lateHolders s e x @ idsAfter e (ids x)"
      using Cons.prems(1) by simp
    note r = Cons.IH [OF ih' ms me eb dcs scs ecs]
    obtain k g mk where c2: "cutAll s e r cs Before = (After, k, g, mk)"
      and k: "concat (map ids (placed r k mk))
          = idsBefore s (concat (map ids cs)) @ ids r @ lateHoldersAmong s e cs
            @ idsAfter e (concat (map ids cs))"
      using r by (cases "cutAll s e r cs Before") auto
    have "cutAll s e r (c # cs) Before
        = (After, c # k, g, map_option (\<lambda>m. length [c] + m) mk)"
      by (cases mk) (simp_all add: c1 c2)
    then show ?thesis
      using k False e_out b
      by (simp only: fst_conv snd_conv placed_Cons)
        (simp add: idsAfter_append_out)
  qed
qed

lemma cut_range:
  "s \<in> set (ids n) \<Longrightarrow> e \<in> set (ids n) \<Longrightarrow> e \<notin> set (idsBefore s (ids n))
    \<Longrightarrow> distinct (ids n) \<Longrightarrow> commentId s [n] \<Longrightarrow> commentId e [n] \<Longrightarrow> s \<noteq> e
    \<Longrightarrow> fst (cut s e r n Before) = After
      \<and> concat (map ids (fst (snd (cut s e r n Before))))
          = idsBefore s (ids n) @ ids r @ lateHolders s e n @ idsAfter e (ids n)"
proof (induction n)
  case (Element i n a cs)
  from Element.prems(5) have sc: "commentId s cs" and ns: "s \<noteq> i"
    using commentId_Element by blast+
  from Element.prems(6) have ec: "commentId e cs" and ne: "e \<noteq> i"
    using commentId_Element by blast+
  from Element.prems ns ne have ms: "s \<in> set (concat (map ids cs))"
    and me: "e \<in> set (concat (map ids cs))"
    and d: "distinct (concat (map ids cs))"
    and eb: "e \<notin> set (idsBefore s (concat (map ids cs)))"
    by (auto simp: ids_Element idsBefore_Cons)
  have ih: "\<And>c. c \<in> set cs \<Longrightarrow> s \<in> set (ids c) \<Longrightarrow> e \<in> set (ids c)
      \<Longrightarrow> e \<notin> set (idsBefore s (ids c)) \<Longrightarrow> commentId s [c] \<Longrightarrow> commentId e [c]
      \<Longrightarrow> fst (cut s e r c Before) = After
        \<and> concat (map ids (fst (snd (cut s e r c Before))))
            = idsBefore s (ids c) @ ids r @ lateHolders s e c @ idsAfter e (ids c)"
  proof -
    fix c assume c: "c \<in> set cs" "s \<in> set (ids c)" "e \<in> set (ids c)"
      "e \<notin> set (idsBefore s (ids c))" "commentId s [c]" "commentId e [c]"
    have "distinct (ids c)" using d c(1) by (induction cs) auto
    with c Element.prems(7) show "fst (cut s e r c Before) = After
        \<and> concat (map ids (fst (snd (cut s e r c Before))))
            = idsBefore s (ids c) @ ids r @ lateHolders s e c @ idsAfter e (ids c)"
      by (intro Element.IH)
  qed
  from cutAll_range [OF ih ms me eb d sc ec]
  obtain k g mk where c2: "cutAll s e r cs Before = (After, k, g, mk)"
    and k: "concat (map ids (placed r k mk))
          = idsBefore s (concat (map ids cs)) @ ids r @ lateHoldersAmong s e cs
            @ idsAfter e (concat (map ids cs))"
    by (cases "cutAll s e r cs Before") auto
  have "cut s e r (Element i n a cs) Before = (After, [Element i n a (placed r k mk)], g)"
    by (simp add: c2 placed_def)
  then show ?case
    using k ns ne by (simp add: ids_Element idsBefore_Cons idsAfter_Cons)
next
  case (Comment i t)
  then show ?case by (simp add: ids_leaf)
next
  case (Text i t)
  then show ?case by (simp add: ids_leaf)
qed


section \<open>The elements that are kept inside a range\<close>

lemma holders_subset: "set (holders e n) \<subseteq> set (ids n)"
proof (induction n)
  case (Element i n a cs)
  then show ?case by (auto simp: ids_Element)
qed simp_all

lemma holders_subset_all: "set (concat (map (holders e) cs)) \<subseteq> set (concat (map ids cs))"
  using holders_subset by fastforce

lemma lateHoldersAmong_filter:
  assumes ih: "\<And>c. c \<in> set cs \<Longrightarrow> s \<in> set (ids c) \<Longrightarrow> e \<in> set (ids c)
      \<Longrightarrow> commentId s [c] \<Longrightarrow> commentId e [c]
      \<Longrightarrow> lateHolders s e c = filter (\<lambda>i. i \<notin> set (holders s c)) (holders e c)"
    and "s \<in> set (concat (map ids cs))" and "e \<in> set (concat (map ids cs))"
    and "e \<notin> set (idsBefore s (concat (map ids cs)))"
    and "distinct (concat (map ids cs))"
    and "commentId s cs" and "commentId e cs"
  shows "lateHoldersAmong s e cs
    = filter (\<lambda>i. i \<notin> set (concat (map (holders s) cs))) (concat (map (holders e) cs))"
  using assms
proof (induction cs)
  case Nil
  then show ?case by simp
next
  case (Cons c cs)
  from Cons.prems(5) have disj: "set (ids c) \<inter> set (concat (map ids cs)) = {}"
    and dcs: "distinct (concat (map ids cs))"
    by auto
  from Cons.prems(6) have sc: "commentId s [c]" and scs: "commentId s cs"
    using commentId_Cons by blast+
  from Cons.prems(7) have ec: "commentId e [c]" and ecs: "commentId e cs"
    using commentId_Cons by blast+
  show ?case
  proof (cases "s \<in> set (ids c)")
    case True
    then have s_out: "s \<notin> set (concat (map ids cs))" using disj by auto
    show ?thesis
    proof (cases "e \<in> set (ids c)")
      case e_in: True
      then have e_out: "e \<notin> set (concat (map ids cs))" using disj by auto
      have "lateHolders s e c = filter (\<lambda>i. i \<notin> set (holders s c)) (holders e c)"
        using True e_in sc ec by (intro Cons.prems(1)) simp_all
      then show ?thesis
        using True e_in by (simp add: holders_absent_all [OF s_out] holders_absent_all [OF e_out])
    next
      case False
      have "set (holders s c) \<inter> set (concat (map (holders e) cs)) = {}"
        using holders_subset [of s c] holders_subset_all [of e cs] disj by blast
      then have "filter (\<lambda>i. i \<notin> set (holders s c)) (concat (map (holders e) cs))
          = concat (map (holders e) cs)"
        by (intro filter_True) blast
      then show ?thesis
        using True False
        by (simp add: holders_absent [OF False] holders_absent_all [OF s_out])
    qed
  next
    case False
    have b: "idsBefore s (concat (map ids (c # cs))) = ids c @ idsBefore s (concat (map ids cs))"
      using False by (simp add: idsBefore_append_out)
    with Cons.prems(4) have e_out: "e \<notin> set (ids c)"
      and eb: "e \<notin> set (idsBefore s (concat (map ids cs)))"
      by auto
    from False Cons.prems(2) have ms: "s \<in> set (concat (map ids cs))" by auto
    from e_out Cons.prems(3) have me: "e \<in> set (concat (map ids cs))" by auto
    have ih': "\<And>x. x \<in> set cs \<Longrightarrow> s \<in> set (ids x) \<Longrightarrow> e \<in> set (ids x)
      \<Longrightarrow> commentId s [x] \<Longrightarrow> commentId e [x]
      \<Longrightarrow> lateHolders s e x = filter (\<lambda>i. i \<notin> set (holders s x)) (holders e x)"
      using Cons.prems(1) by simp
    note r = Cons.IH [OF ih' ms me eb dcs scs ecs]
    show ?thesis
      using r False by (simp add: holders_absent [OF False] holders_absent [OF e_out])
  qed
qed

lemma lateHolders_filter:
  "s \<in> set (ids n) \<Longrightarrow> e \<in> set (ids n) \<Longrightarrow> e \<notin> set (idsBefore s (ids n))
    \<Longrightarrow> distinct (ids n) \<Longrightarrow> commentId s [n] \<Longrightarrow> commentId e [n]
    \<Longrightarrow> lateHolders s e n = filter (\<lambda>i. i \<notin> set (holders s n)) (holders e n)"
proof (induction n)
  case (Element i n a cs)
  from Element.prems(5) have sc: "commentId s cs" and ns: "s \<noteq> i"
    using commentId_Element by blast+
  from Element.prems(6) have ec: "commentId e cs" and ne: "e \<noteq> i"
    using commentId_Element by blast+
  from Element.prems ns ne have ms: "s \<in> set (concat (map ids cs))"
    and me: "e \<in> set (concat (map ids cs))"
    and d: "distinct (concat (map ids cs))"
    and eb: "e \<notin> set (idsBefore s (concat (map ids cs)))"
    and fresh: "i \<notin> set (concat (map ids cs))"
    by (auto simp: ids_Element idsBefore_Cons)
  have ih: "\<And>c. c \<in> set cs \<Longrightarrow> s \<in> set (ids c) \<Longrightarrow> e \<in> set (ids c)
      \<Longrightarrow> commentId s [c] \<Longrightarrow> commentId e [c]
      \<Longrightarrow> lateHolders s e c = filter (\<lambda>i. i \<notin> set (holders s c)) (holders e c)"
  proof -
    fix c assume c: "c \<in> set cs" "s \<in> set (ids c)" "e \<in> set (ids c)"
      "commentId s [c]" "commentId e [c]"
    have dc: "distinct (ids c)" using d c(1) by (induction cs) auto
    obtain pre post where sp: "cs = pre @ c # post" using c(1) by (meson split_list)
    have "s \<notin> set (concat (map ids pre))" using d c(2) sp by auto
    then have "idsBefore s (concat (map ids cs))
        = concat (map ids pre) @ idsBefore s (ids c)"
      using sp c(2) by (simp add: idsBefore_append_out idsBefore_append_in)
    with eb have "e \<notin> set (idsBefore s (ids c))" by simp
    with c dc show "lateHolders s e c = filter (\<lambda>i. i \<notin> set (holders s c)) (holders e c)"
      by (intro Element.IH)
  qed
  have "i \<notin> set (concat (map (holders e) cs))"
    using fresh holders_subset_all [of e cs] by blast
  then have "filter (\<lambda>j. j \<noteq> i \<and> j \<notin> set (concat (map (holders s) cs)))
        (concat (map (holders e) cs))
      = filter (\<lambda>j. j \<notin> set (concat (map (holders s) cs))) (concat (map (holders e) cs))"
    by (intro filter_cong) auto
  then show ?case
    using lateHoldersAmong_filter [OF ih ms me eb d sc ec] ms me by simp
qed simp_all


section \<open>Replacing a try block in comment form\<close>

lemma unique_node:
  "distinct (map nodeId xs) \<Longrightarrow> x \<in> set xs \<Longrightarrow> y \<in> set xs \<Longrightarrow> nodeId x = nodeId y \<Longrightarrow> x = y"
  by (meson distinct_map inj_onD)

lemma commentId_distinct:
  assumes "distinct (ids t)" "c \<in> set (subtree t)" "isComment c"
  shows "commentId (nodeId c) [t]"
  unfolding commentId_def
proof (intro ballI impI)
  fix n assume n: "n \<in> set (concat (map subtree [t]))" "nodeId n = nodeId c"
  then have "n \<in> set (subtree t)" by simp
  with assms(1,2) n(2) have "n = c" unfolding ids_def by (intro unique_node)
  then show "isComment n" using assms(3) by simp
qed

lemma following_is_after:
  assumes "distinct (map f xs)" "c \<in> set (drop 1 (dropWhile (\<lambda>n. f n \<noteq> s) xs))"
  shows "f c \<notin> set (takeWhile (\<lambda>i. i \<noteq> s) (map f xs)) \<and> f c \<noteq> s \<and> c \<in> set xs"
proof -
  let ?A = "takeWhile (\<lambda>n. f n \<noteq> s) xs" and ?D = "dropWhile (\<lambda>n. f n \<noteq> s) xs"
  have xs: "xs = ?A @ ?D" by simp
  obtain x rest where D: "?D = x # rest"
  proof (cases ?D)
    case Nil
    with assms(2) show ?thesis by (simp only: drop_Nil list.set empty_iff)
  next
    case (Cons x rest)
    then show ?thesis by (rule that)
  qed
  then have fx: "f x = s" using hd_dropWhile [of "\<lambda>n. f n \<noteq> s" xs] by auto
  from assms(2) D have c: "c \<in> set rest" by simp
  have "distinct (map f (?A @ x # rest))" using assms(1) xs D by metis
  then have d: "f x \<notin> set (map f rest)" "set (map f ?A) \<inter> set (map f rest) = {}"
    by auto
  have fc: "f c \<in> set (map f rest)" using c by simp
  have "f c \<notin> set (map f ?A)" using d(2) fc by blast
  moreover have "f c \<noteq> f x" using d(1) fc by metis
  moreover have "takeWhile (\<lambda>i. i \<noteq> s) (map f xs) = map f ?A"
    by (simp add: takeWhile_map comp_def)
  moreover have "c \<in> set xs" using c xs D by (metis in_set_conv_decomp list.set_intros(2) Un_iff set_append)
  ultimately show ?thesis using fx by simp
qed

lemma documentElement_child:
  assumes "documentElement d = Some root"
  shows "\<exists>i n a pre post. document d = Element i n a (pre @ root # post)"
proof -
  from assms have "root \<in> set (childNodes (document d))"
    unfolding documentElement_def by (auto simp: find_Some_iff)
  then obtain pre post where "childNodes (document d) = pre @ root # post"
    by (meson split_list)
  then show ?thesis by (cases "document d") auto
qed

lemma followingNodes_root:
  assumes "documentElement d = Some root" "s \<in> set (ids root)"
  shows "followingNodes d s = drop 1 (dropWhile (\<lambda>n. nodeId n \<noteq> s) (subtree root))"
  using assms by (simp add: followingNodes_def)

lemma cut_Before_single:
  "\<exists>k. fst (snd (cut s e r (Element i n a cs) Before)) = [k]"
  by (simp split: prod.splits)

lemma rangeIn_ids:
  assumes "s \<in> set (ids t)" "e \<in> set (ids t)" "e \<notin> set (idsBefore s (ids t))"
    "distinct (ids t)" "commentId s [t]" "commentId e [t]" "s \<noteq> e"
  shows "ids (fst (rangeIn s e r t))
    = idsBefore s (ids t) @ ids r @ lateHolders s e t @ idsAfter e (ids t)"
proof -
  note c = cut_range [OF assms, of r]
  obtain i n a cs where t: "t = Element i n a cs"
    using assms(1,2,7) by (cases t) (auto simp: ids_leaf)
  obtain k where k: "fst (snd (cut s e r t Before)) = [k]"
    using cut_Before_single [of s e r i n a cs] t by auto
  then have "fst (rangeIn s e r t) = k"
    by (cases "cut s e r t Before") (auto simp: rangeIn_def)
  moreover have "ids k = idsBefore s (ids t) @ ids r @ lateHolders s e t @ idsAfter e (ids t)"
    using c k by simp
  ultimately show ?thesis by simp
qed

lemma range_decomposition:
  assumes "s \<in> set L" "e \<in> set L" "e \<notin> set (idsBefore s L)" "e \<noteq> s"
  shows "\<exists>M. L = idsBefore s L @ [s] @ M @ [e] @ idsAfter e L"
proof -
  from assms(1) obtain A R where L: "L = A @ s # R" "s \<notin> set A"
    by (meson split_list_first)
  then have b: "idsBefore s L = A"
    by (simp add: idsBefore_append_out idsBefore_Cons)
  with assms(2,3,4) L have "e \<in> set R" by auto
  then obtain M R' where R: "R = M @ e # R'" "e \<notin> set M"
    by (meson split_list_first)
  have eA: "e \<notin> set A" using assms(3) b by simp
  have "idsAfter e L = R'"
    using L R eA assms(4)
    by (simp add: idsAfter_append_out idsAfter_Cons)
  then show ?thesis using L R b by simp
qed

lemma rangeReplace_document:
  "document (rangeReplace d s e r) = fst (rangeIn s e r (document d))"
  by (simp add: rangeReplace_def)

text \<open>C8, as the code has it. For an opening comment \<open>s\<close> under the root element of a
  well-formed page, \<open>replaceCommentTryBlock\<close> looks through the nodes after \<open>s\<close> in tree
  order for the first comment whose text contains \<open></esi:try>\<close>.

  If there is one, \<open>c\<close>, the tree order of the document is
  \<open>before @ [s] @ M @ [c] @ after\<close>, and afterwards it is
  \<open>before @ new @ kept @ after\<close>, where \<open>kept\<close> are the elements that hold the closing
  comment and not the opening one: these elements lie only partly in the range, and
  \<open>deleteContents\<close> leaves them in the tree. Every other node from the opening comment
  through the closing comment is gone, both comments included, and the new node stands
  where the range began.

  If there is none, the document afterwards is the document before with the opening
  comment alone replaced by the new node.\<close>

theorem comment_try_block_replacement:
  assumes wf: "wellFormed d"
    and root: "documentElement d = Some root"
    and op: "Comment s ts \<in> set (subtree root)"
  shows "(List.find closesTry (followingNodes d s) = Some c \<longrightarrow>
        (\<exists>M. ids (document d) = idsBefore s (ids (document d)) @ [s] @ M @ [nodeId c]
            @ idsAfter (nodeId c) (ids (document d)))
        \<and> ids (document (replaceCommentTryBlock d s r))
            = idsBefore s (ids (document d)) @ ids r
              @ filter (\<lambda>i. i \<notin> set (holders s (document d))) (holders (nodeId c) (document d))
              @ idsAfter (nodeId c) (ids (document d)))
    \<and> (List.find closesTry (followingNodes d s) = None \<longrightarrow>
        replacedIn (ids (document d)) (Comment s ts) r
          (ids (document (replaceCommentTryBlock d s r))))"
proof -
  from documentElement_child [OF root] obtain i n a pre post where
    doc: "document d = Element i n a (pre @ root # post)"
    by blast
  have dist: "distinct (map nodeId (allNodes d))" using wf by (simp add: wellFormed_def)
  then have dd: "distinct (ids (document d))" by (simp add: allNodes_def ids_def)
  have L: "ids (document d)
      = (i # concat (map ids pre)) @ ids root @ concat (map ids post)"
    by (simp add: doc ids_Element)
  have dr: "distinct (ids root)" using dd L by simp
  have s_root: "s \<in> set (ids root)" using op by (force simp: ids_def)
  have s_pre: "s \<notin> set (i # concat (map ids pre))" using dd L s_root by auto
  have s_doc: "s \<in> set (ids (document d))" using L s_root by simp
  have sub: "set (subtree root) \<subseteq> set (subtree (document d))" by (auto simp: doc)
  have op_doc: "Comment s ts \<in> set (subtree (document d))" using op sub by blast
  have cs: "commentId s [document d]"
    using commentId_distinct [OF dd op_doc] by simp
  have before: "idsBefore s (ids (document d))
      = (i # concat (map ids pre)) @ idsBefore s (ids root)"
  proof -
    have "idsBefore s ((i # concat (map ids pre)) @ (ids root @ concat (map ids post)))
        = (i # concat (map ids pre)) @ idsBefore s (ids root @ concat (map ids post))"
      using s_pre by (rule idsBefore_append_out)
    moreover have "idsBefore s (ids root @ concat (map ids post)) = idsBefore s (ids root)"
      using s_root by (rule idsBefore_append_in)
    ultimately show ?thesis unfolding L by simp
  qed
  have part1: "(\<exists>M. ids (document d) = idsBefore s (ids (document d)) @ [s] @ M @ [nodeId c]
            @ idsAfter (nodeId c) (ids (document d)))
        \<and> ids (document (replaceCommentTryBlock d s r))
            = idsBefore s (ids (document d)) @ ids r
              @ filter (\<lambda>i. i \<notin> set (holders s (document d))) (holders (nodeId c) (document d))
              @ idsAfter (nodeId c) (ids (document d))"
    if f: "List.find closesTry (followingNodes d s) = Some c"
  proof -
    from f have c: "c \<in> set (followingNodes d s)" "closesTry c"
      by (auto simp: find_Some_iff)
    then have c': "c \<in> set (drop 1 (dropWhile (\<lambda>n. nodeId n \<noteq> s) (subtree root)))"
      using followingNodes_root [OF root s_root] by simp
    have "distinct (map nodeId (subtree root))" using dr by (simp add: ids_def)
    from following_is_after [OF this c']
    have e1: "nodeId c \<notin> set (idsBefore s (ids root))" and e2: "nodeId c \<noteq> s"
      and e3: "c \<in> set (subtree root)"
      by (simp_all add: idsBefore_def ids_def)
    have e_root: "nodeId c \<in> set (ids root)" using e3 by (force simp: ids_def)
    have e_pre: "nodeId c \<notin> set (i # concat (map ids pre))" using dd L e_root by auto
    have e_doc: "nodeId c \<in> set (ids (document d))" using L e_root by simp
    have eb: "nodeId c \<notin> set (idsBefore s (ids (document d)))"
      using before e1 e_pre by simp
    have "c \<in> set (subtree (document d))" using e3 sub by blast
    moreover have "isComment c" using c(2) by (simp add: closesTry_def)
    ultimately have ce: "commentId (nodeId c) [document d]"
      using commentId_distinct [OF dd] by blast
    have ne: "s \<noteq> nodeId c" using e2 by simp
    have "replaceCommentTryBlock d s r = rangeReplace d s (nodeId c) r"
      using f by (simp add: replaceCommentTryBlock_def)
    then have "ids (document (replaceCommentTryBlock d s r))
        = ids (fst (rangeIn s (nodeId c) r (document d)))"
      by (simp add: rangeReplace_document)
    also have "\<dots> = idsBefore s (ids (document d)) @ ids r
        @ lateHolders s (nodeId c) (document d) @ idsAfter (nodeId c) (ids (document d))"
      using s_doc e_doc eb dd cs ce ne by (rule rangeIn_ids)
    also have "lateHolders s (nodeId c) (document d)
        = filter (\<lambda>i. i \<notin> set (holders s (document d))) (holders (nodeId c) (document d))"
      using s_doc e_doc eb dd cs ce by (rule lateHolders_filter)
    finally have r: "ids (document (replaceCommentTryBlock d s r))
            = idsBefore s (ids (document d)) @ ids r
              @ filter (\<lambda>i. i \<notin> set (holders s (document d))) (holders (nodeId c) (document d))
              @ idsAfter (nodeId c) (ids (document d))" .
    have "\<exists>M. ids (document d) = idsBefore s (ids (document d)) @ [s] @ M @ [nodeId c]
            @ idsAfter (nodeId c) (ids (document d))"
      using s_doc e_doc eb e2 by (rule range_decomposition)
    then show ?thesis using r by (intro conjI)
  qed
  have part2: "replacedIn (ids (document d)) (Comment s ts) r
          (ids (document (replaceCommentTryBlock d s r)))"
    if f: "List.find closesTry (followingNodes d s) = None"
  proof -
    have nr: "s \<noteq> nodeId (document d)" using s_pre by (simp add: doc)
    have par: "parentNode d s \<noteq> None" using s_doc nr by (rule attached_has_parent)
    then have "replaceCommentTryBlock d s r = replaceChild d r s"
      using f by (simp add: replaceCommentTryBlock_def del: not_None_eq)
    moreover have "nodeId (Comment s ts) = s" by simp
    note replaceChild_document(2) [OF dist op_doc this nr, of r]
    ultimately show ?thesis by simp
  qed
  show ?thesis
    apply (intro conjI impI)
    subgoal by (rule conjunct1 [OF part1])
    subgoal by (rule conjunct2 [OF part1])
    subgoal by (rule part2)
    done
qed


text \<open>The claim C8 says that every node from the opening comment through the closing
  comment is removed. Here the closing comment 9 lies in the element 7, which begins after
  the opening comment 4: the element 7 is between the two in tree order and is still in
  the document afterwards.\<close>

theorem comment_try_block_replacement_counterexample:
  "List.find closesTry (followingNodes nestedClosing 4) = Some (Comment 9 ''</esi:try>'')
   \<and> ids (document nestedClosing) = [0, 1, 2, 3, 4, 5, 6, 7, 8, 9, 10]
   \<and> ids (document (replaceCommentTryBlock nestedClosing 4 (Text 11 ''new'')))
       = [0, 1, 2, 3, 11, 7, 10]"
proof -
  have a: "List.find closesTry (followingNodes nestedClosing 4) = Some (Comment 9 ''</esi:try>'')"
    by code_simp
  have b: "ids (document nestedClosing) = [0, 1, 2, 3, 4, 5, 6, 7, 8, 9, 10]"
    by code_simp
  have c: "ids (document (replaceCommentTryBlock nestedClosing 4 (Text 11 ''new'')))
       = [0, 1, 2, 3, 11, 7, 10]"
    by code_simp
  show ?thesis using a b c by (intro conjI)
qed

theorem comment_try_block_replacement_witness:
  "wellFormed nestedClosing
   \<and> documentElement nestedClosing = Some (exampleRoot nestedClosingBody)
   \<and> List.find closesTry (followingNodes nestedClosing 4) = Some (Comment 9 ''</esi:try>'')
   \<and> ids (document (replaceCommentTryBlock nestedClosing 4 (Text 11 ''new'')))
       = [0, 1, 2, 3] @ [11] @ [7] @ [10]
   \<and> wellFormed emptyTryComment
   \<and> List.find closesTry (followingNodes emptyTryComment 4) = None
   \<and> replacedIn (ids (document emptyTryComment)) (Comment 4 ''<esi:try> soon'') (Text 6 ''new'')
        (ids (document (replaceCommentTryBlock emptyTryComment 4 (Text 6 ''new''))))"
proof -
  let ?open = "''<esi:try><esi:include src='' @ [CHR 0x22] @ ''/a.html'' @ [CHR 0x22] @ ''/>''"
  have w: "wellFormed nestedClosing" by code_simp
  have r: "documentElement nestedClosing = Some (exampleRoot nestedClosingBody)" by code_simp
  have o: "Comment 4 ?open \<in> set (subtree (exampleRoot nestedClosingBody))" by code_simp
  have f: "List.find closesTry (followingNodes nestedClosing 4) = Some (Comment 9 ''</esi:try>'')"
    by code_simp
  have v: "idsBefore 4 (ids (document nestedClosing)) = [0, 1, 2, 3]"
    "idsAfter 9 (ids (document nestedClosing)) = [10]"
    "filter (\<lambda>i. i \<notin> set (holders 4 (document nestedClosing)))
       (holders 9 (document nestedClosing)) = [7]"
    "ids (Text 11 ''new'') = [11]"
    by code_simp+
  note t = comment_try_block_replacement [OF w r o, of "Comment 9 ''</esi:try>''" "Text 11 ''new''"]
  have a: "ids (document (replaceCommentTryBlock nestedClosing 4 (Text 11 ''new'')))
       = [0, 1, 2, 3] @ [11] @ [7] @ [10]"
    using t f v by simp
  have w2: "wellFormed emptyTryComment" by code_simp
  have r2: "documentElement emptyTryComment
      = Some (exampleRoot [Comment 4 ''<esi:try> soon'', Text 5 ''after''])"
    by code_simp
  have o2: "Comment 4 ''<esi:try> soon''
      \<in> set (subtree (exampleRoot [Comment 4 ''<esi:try> soon'', Text 5 ''after'']))"
    by code_simp
  have f2: "List.find closesTry (followingNodes emptyTryComment 4) = None" by code_simp
  note t2 = comment_try_block_replacement [OF w2 r2 o2, of "Text 5 ''after''" "Text 6 ''new''"]
  have b: "replacedIn (ids (document emptyTryComment)) (Comment 4 ''<esi:try> soon'')
        (Text 6 ''new'') (ids (document (replaceCommentTryBlock emptyTryComment 4 (Text 6 ''new''))))"
    using t2 f2 by simp
  show ?thesis using w r f a w2 f2 b by (intro conjI)
qed

end
